theory Spec2Isabelle
  imports Complex_Main "HOL-Library.Sublist" "HOL-Library.Product_Lexorder"
begin

section \<open>Text: whitespace normalisation and repeated n-gram collapse\<close>

text \<open>
  A JavaScript string is modelled as a \<^typ>\<open>string\<close>: a list of 8-bit characters, read as the
  code units \<open>0..255\<close> of the source's strings.  The class \<open>\s\<close> of the regular expression in
  \<open>normalizeWhitespace\<close>, restricted to this range, is TAB, LF, VT, FF, CR, SPACE and NBSP;
  \<open>trim()\<close> strips the same characters.
\<close>

definition is_space :: "char \<Rightarrow> bool" where
  "is_space c \<longleftrightarrow>
     c = CHR 0x09 \<or> c = CHR 0x0A \<or> c = CHR 0x0B \<or> c = CHR 0x0C \<or> c = CHR 0x0D \<or>
     c = CHR 0x20 \<or> c = CHR 0xA0"

text \<open>\<open>text.replace(/\s+/g, " ")\<close>: every maximal run of whitespace becomes one space.\<close>

function replace_ws :: "string \<Rightarrow> string" where
  "replace_ws [] = []"
| "replace_ws (c # cs) =
     (if is_space c then CHR '' '' # replace_ws (dropWhile is_space cs)
      else c # replace_ws cs)"
  by pat_completeness auto
termination
  by (relation "measure length") (auto simp: length_dropWhile_le less_Suc_eq_le)

definition trim :: "string \<Rightarrow> string" where
  "trim s = rev (dropWhile is_space (rev (dropWhile is_space s)))"

definition normalizeWhitespace :: "string \<Rightarrow> string" where
  "normalizeWhitespace t = trim (replace_ws t)"

text \<open>\<open>s.split(" ")\<close> and \<open>words.join(" ")\<close>.\<close>

fun split_sp :: "string \<Rightarrow> string list" where
  "split_sp [] = [[]]"
| "split_sp (c # cs) =
     (if c = CHR '' '' then [] # split_sp cs
      else (case split_sp cs of [] \<Rightarrow> [[c]] | w # ws \<Rightarrow> (c # w) # ws))"

fun join_sp :: "string list \<Rightarrow> string" where
  "join_sp [] = []"
| "join_sp [w] = w"
| "join_sp (w # ws) = w @ CHR '' '' # join_sp ws"

text \<open>\<open>words.splice(start, count)\<close>, for the list that stays in \<open>words\<close>.\<close>

definition splice :: "'a list \<Rightarrow> nat \<Rightarrow> nat \<Rightarrow> 'a list" where
  "splice ws start cnt = take start ws @ drop (start + cnt) ws"

text \<open>
  The inner \<open>for (offset ...)\<close> loop of \<open>collapseConsecutiveRepeatedNgrams\<close>: the \<open>gramSize\<close>
  words before \<open>index\<close> repeat the \<open>gramSize\<close> words before them.
\<close>

definition repeated :: "string list \<Rightarrow> nat \<Rightarrow> nat \<Rightarrow> bool" where
  "repeated ws g i \<longleftrightarrow>
     list_all (\<lambda>off. ws ! (i - g * 2 + off) = ws ! (i - g + off)) [0..<g]"

text \<open>
  The nested \<open>for\<close> and \<open>while\<close> over \<open>(gramSize, index)\<close>.  The source's \<open>for\<close> runs while
  \<open>gramSize >= 3\<close> and its \<open>while\<close> runs while \<open>index <= words.length\<close>; leaving the
  \<open>while\<close> decrements \<open>gramSize\<close> and resets \<open>index\<close> to \<open>gramSize * 2\<close>.  In the source
  \<open>index\<close> starts at \<open>gramSize * 2\<close> and never decreases, so the second test below never
  succeeds on a state the program reaches; it only makes the function total on all arguments.
\<close>

function collapse_loop :: "string list \<Rightarrow> nat \<Rightarrow> nat \<Rightarrow> string list" where
  "collapse_loop ws g i =
     (if g < 3 then ws
      else if i < g * 2 then ws
      else if i \<le> length ws then
        (if repeated ws g i then collapse_loop (splice ws (i - g) g) g i
         else collapse_loop ws g (i + 1))
      else collapse_loop ws (g - 1) ((g - 1) * 2))"
  by pat_completeness auto
termination
  by (relation "measures [\<lambda>(ws, g, i). g, \<lambda>(ws, g, i). Suc (length ws) - i]")
     (auto simp: splice_def)

declare collapse_loop.simps [simp del]

definition collapseConsecutiveRepeatedNgrams :: "string \<Rightarrow> string" where
  "collapseConsecutiveRepeatedNgrams t =
     (let normalized = normalizeWhitespace t in
      if normalized = [] then []
      else
        let ws = split_sp normalized in
        if length ws < 6 then normalized
        else
          let g0 = min 20 (length ws div 2) in
          trim (join_sp (collapse_loop ws g0 (g0 * 2))))"

text \<open>\<open>toLowerCase()\<close> on the code units \<open>0..255\<close>: A-Z and the Latin-1 capitals.\<close>

definition lower_char :: "char \<Rightarrow> char" where
  "lower_char c =
     (let n = (of_char c :: nat) in
      if (65 \<le> n \<and> n \<le> 90) \<or> (192 \<le> n \<and> n \<le> 214) \<or> (216 \<le> n \<and> n \<le> 222)
      then char_of (n + 32) else c)"

definition toLowerCase :: "string \<Rightarrow> string" where
  "toLowerCase s = map lower_char s"

definition normalizeForCompare :: "string \<Rightarrow> string" where
  "normalizeForCompare t = toLowerCase (collapseConsecutiveRepeatedNgrams t)"

section \<open>Segments and their merge\<close>

text \<open>
  \<open>TranscriptSegment = { text, start, end }\<close>.  The source's \<open>number\<close> is modelled as
  \<^typ>\<open>real\<close>: the timestamps that reach \<open>dedupeSegments\<close> have passed \<open>toSafeTimestamp\<close>
  and are finite, and the rounding of \<open>prev.end + 0.35\<close> is not modelled.
\<close>

record TranscriptSegment =
  seg_text :: string
  seg_start :: real
  seg_end :: real

text \<open>\<open>a.includes(b)\<close>: \<open>b\<close> occurs in \<open>a\<close> as a contiguous run.\<close>

definition str_includes :: "string \<Rightarrow> string \<Rightarrow> bool" where
  "str_includes a b \<longleftrightarrow> sublist b a"

text \<open>The tests of the loop body of \<open>dedupeSegments\<close>, on \<open>prev\<close> and \<open>next\<close>.\<close>

definition overlaps :: "TranscriptSegment \<Rightarrow> TranscriptSegment \<Rightarrow> bool" where
  "overlaps prev next \<longleftrightarrow> seg_start next \<le> seg_end prev + 0.35"

definition sameOrContained :: "TranscriptSegment \<Rightarrow> TranscriptSegment \<Rightarrow> bool" where
  "sameOrContained prev next \<longleftrightarrow>
     (let prevNorm = normalizeForCompare (seg_text prev);
          nextNorm = normalizeForCompare (seg_text next)
      in prevNorm = nextNorm \<or> str_includes prevNorm nextNorm \<or> str_includes nextNorm prevNorm)"

text \<open>What the two assignments to \<open>prev\<close> leave in the last slot of \<open>deduped\<close>.\<close>

definition merge_into :: "TranscriptSegment \<Rightarrow> TranscriptSegment \<Rightarrow> TranscriptSegment" where
  "merge_into prev next =
     prev\<lparr>seg_text :=
            (if length (normalizeForCompare (seg_text next)) >
                length (normalizeForCompare (seg_text prev))
             then seg_text next else seg_text prev),
          seg_end := max (seg_end prev) (seg_end next)\<rparr>"

text \<open>The object \<open>next\<close> built from \<open>segment\<close> and its cleaned text.\<close>

definition mk_next :: "TranscriptSegment \<Rightarrow> TranscriptSegment" where
  "mk_next segment =
     \<lparr>seg_text = collapseConsecutiveRepeatedNgrams (seg_text segment),
      seg_start = seg_start segment,
      seg_end = max (seg_end segment) (seg_start segment)\<rparr>"

text \<open>One iteration of \<open>for (const segment of sorted)\<close>; \<open>deduped\<close> is passed and returned.\<close>

definition dedupe_step :: "TranscriptSegment list \<Rightarrow> TranscriptSegment \<Rightarrow> TranscriptSegment list" where
  "dedupe_step deduped segment =
     (let cleanedText = collapseConsecutiveRepeatedNgrams (seg_text segment) in
      if cleanedText = [] then deduped
      else
        let next = mk_next segment in
        if deduped = [] then deduped @ [next]
        else
          let prev = last deduped in
          if sameOrContained prev next \<and> overlaps prev next
          then butlast deduped @ [merge_into prev next]
          else deduped @ [next])"

text \<open>
  \<open>[...segments].sort((a, b) => a.start - b.start || a.end - b.end)\<close> is a stable sort by
  \<open>(start, end)\<close> in lexicographic order; \<^const>\<open>sort_key\<close> is the stable insertion sort.
\<close>

definition sort_segments :: "TranscriptSegment list \<Rightarrow> TranscriptSegment list" where
  "sort_segments segments = sort_key (\<lambda>s. (seg_start s, seg_end s)) segments"

definition dedupeSegments :: "TranscriptSegment list \<Rightarrow> TranscriptSegment list" where
  "dedupeSegments segments = foldl dedupe_step [] (sort_segments segments)"

section \<open>Window construction\<close>

definition CHUNK_LENGTH_S :: nat where "CHUNK_LENGTH_S = 30"

definition STRIDE_LENGTH_S :: nat where "STRIDE_LENGTH_S = 5"

definition SAMPLE_RATE :: nat where "SAMPLE_RATE = 16000"

definition CHUNK_JUMP_SAMPLES :: nat where
  "CHUNK_JUMP_SAMPLES = (CHUNK_LENGTH_S - 2 * STRIDE_LENGTH_S) * SAMPLE_RATE"

definition WINDOW_SAMPLES :: nat where "WINDOW_SAMPLES = CHUNK_LENGTH_S * SAMPLE_RATE"

definition JUMP_SAMPLES :: nat where "JUMP_SAMPLES = CHUNK_JUMP_SAMPLES"

definition MIN_WINDOW_SAMPLES :: nat where "MIN_WINDOW_SAMPLES = 1 * SAMPLE_RATE"

definition estimateChunkCount :: "nat \<Rightarrow> nat" where
  "estimateChunkCount audioLength =
     (let windowSamples = CHUNK_LENGTH_S * SAMPLE_RATE in
      if audioLength \<le> windowSamples \<or> CHUNK_JUMP_SAMPLES \<le> 0 then 1
      else nat \<lceil>real (audioLength - windowSamples) / real CHUNK_JUMP_SAMPLES\<rceil> + 1)"

text \<open>
  A \<open>Float32Array\<close> is a list of samples.  \<open>audio.slice(b, e)\<close> copies the samples
  \<open>b \<le> i < e\<close>; \<open>padToMinLength\<close> appends zeros up to \<open>minLen\<close>.
\<close>

definition slice :: "real list \<Rightarrow> nat \<Rightarrow> nat \<Rightarrow> real list" where
  "slice audio b e = take (e - b) (drop b audio)"

definition padToMinLength :: "real list \<Rightarrow> nat \<Rightarrow> real list" where
  "padToMinLength buf minLen =
     (if length buf \<ge> minLen then buf else buf @ replicate (minLen - length buf) 0)"

record Window =
  data :: "real list"
  offsetS :: real

text \<open>The window pushed by one iteration of the \<open>while\<close> loop, at sample \<open>offset\<close>.\<close>

definition window_at :: "real list \<Rightarrow> nat \<Rightarrow> Window" where
  "window_at audio offset =
     (let end' = min (offset + WINDOW_SAMPLES) (length audio);
          slice' = slice audio offset end';
          windowData = padToMinLength slice' MIN_WINDOW_SAMPLES
      in \<lparr>data = windowData, offsetS = real offset / real SAMPLE_RATE\<rparr>)"

text \<open>
  \<open>while (offset < audio.length) { ...push...; if (end >= audio.length) break; offset += JUMP_SAMPLES; }\<close>
  The function returns the windows pushed from \<open>offset\<close> on.
\<close>

function windows_loop :: "real list \<Rightarrow> nat \<Rightarrow> Window list" where
  "windows_loop audio offset =
     (if offset < length audio then
        (if min (offset + WINDOW_SAMPLES) (length audio) \<ge> length audio
         then [window_at audio offset]
         else window_at audio offset # windows_loop audio (offset + JUMP_SAMPLES))
      else [])"
  by pat_completeness auto
termination
  by (relation "measure (\<lambda>(audio, offset). length audio - offset)")
     (auto simp: JUMP_SAMPLES_def CHUNK_JUMP_SAMPLES_def CHUNK_LENGTH_S_def
        STRIDE_LENGTH_S_def SAMPLE_RATE_def)

declare windows_loop.simps [simp del]

text \<open>
  The loop from offset 0, followed by the statement after it, which the source introduces
  with the comment \<open>Safety net: if audio was empty, push the whole thing.\<close>
\<close>

definition buildWindows :: "real list \<Rightarrow> Window list" where
  "buildWindows audio =
     (let windows = windows_loop audio 0 in
      if length windows = 0 \<and> length audio > 0
      then windows @ [\<lparr>data = padToMinLength (slice audio 0 (length audio)) MIN_WINDOW_SAMPLES,
                         offsetS = 0\<rparr>]
      else windows)"

section \<open>The worker: messages and the per-window loop\<close>

datatype WorkerStatus = W_loading | W_ready | W_transcribing | W_error

datatype ProgressPhase = Download | TranscribingPhase

text \<open>An optional field of a message is an \<open>option\<close>; \<open>None\<close> is a field that is not set.\<close>

record StatusMsg =
  s_status :: WorkerStatus
  s_requestId :: "nat option"
  s_detail :: "string option"
  s_device :: "string option"

record ProgressMsg =
  p_phase :: ProgressPhase
  p_progress :: real
  p_requestId :: "nat option"
  p_processedChunks :: "nat option"
  p_totalChunks :: "nat option"
  p_currentSlice :: "nat option"
  p_totalSlices :: "nat option"
  p_loaded :: "nat option"
  p_total :: "nat option"
  p_file :: "string option"

datatype WorkerResponse =
    Status StatusMsg
  | Progress ProgressMsg
  | Partial string nat
  | Segments nat string "TranscriptSegment list"
  | Result string nat
  | ErrorMsg string "nat option"

text \<open>
  The inference backend is a parameter.  Its answer to the \<open>i\<close>-th call of a job, on the samples
  of the window, is either a thrown error (\<open>Inl\<close>, with the text \<open>errorMessage\<close> gives it) or
  the object the handler calls \<open>normalized\<close>, read through the fields the handler reads:
  \<open>text\<close> (\<open>None\<close> when \<open>normalized?.text\<close> is nullish), \<open>chunks\<close> (\<open>None\<close> when it is
  not an array), and for a chunk its \<open>text\<close> (\<open>None\<close> when it is not a string) and its
  \<open>timestamp\<close> (\<open>None\<close> when it is not an array; an entry of the pair is \<open>None\<close> when it
  is not a finite number).
\<close>

record AsrChunk =
  c_text :: "string option"
  c_timestamp :: "(real option \<times> real option) option"

record AsrOutput =
  o_text :: "string option"
  o_chunks :: "AsrChunk list option"

type_synonym Transcriber = "nat \<Rightarrow> real list \<Rightarrow> string + AsrOutput"

definition toSafeTimestamp :: "real option \<Rightarrow> real \<Rightarrow> real" where
  "toSafeTimestamp v fallback = (case v of None \<Rightarrow> fallback | Some x \<Rightarrow> max 0 x)"

definition normalizeProgress :: "real \<Rightarrow> real" where
  "normalizeProgress rawProgress =
     (let normalized = (if rawProgress \<le> 1 then rawProgress * 100 else rawProgress)
      in max 0 (min 100 normalized))"

text \<open>\<open>for (const chunk of rawChunks)\<close>: the segments pushed on \<open>allSegments\<close>.\<close>

fun collect_chunks :: "real \<Rightarrow> TranscriptSegment list \<Rightarrow> AsrChunk list \<Rightarrow> TranscriptSegment list" where
  "collect_chunks off allSegs [] = allSegs"
| "collect_chunks off allSegs (chunk # rest) =
     (let txt = (case c_text chunk of Some t \<Rightarrow> trim t | None \<Rightarrow> []) in
      if txt = [] then collect_chunks off allSegs rest
      else
        let ts = (case c_timestamp chunk of Some p \<Rightarrow> p | None \<Rightarrow> (Some 0, Some 0));
            start = toSafeTimestamp (fst ts) 0 + off;
            end' = toSafeTimestamp (snd ts) (toSafeTimestamp (fst ts) 0) + off
        in collect_chunks off
             (allSegs @ [\<lparr>seg_text = txt, seg_start = start, seg_end = end'\<rparr>]) rest)"

record WorkerLoop =
  accumulatedTexts :: "string list"
  allSegments :: "TranscriptSegment list"
  posted :: "WorkerResponse list"

text \<open>
  The body of the \<open>try\<close> block for window \<open>i\<close>.  The call of the backend is its first
  statement, so a throw leaves the accumulators as they were.
\<close>

definition window_try :: "Transcriber \<Rightarrow> nat \<Rightarrow> WorkerLoop \<Rightarrow> nat \<Rightarrow> Window \<Rightarrow> string + WorkerLoop" where
  "window_try transcriber requestId st i win =
     (case transcriber i (data win) of
        Inl windowError \<Rightarrow> Inl windowError
      | Inr normalized \<Rightarrow>
          let rawChunks = (case o_chunks normalized of Some cs \<Rightarrow> cs | None \<Rightarrow> []);
              st1 = st\<lparr>allSegments := collect_chunks (offsetS win) (allSegments st) rawChunks\<rparr>;
              windowText = normalizeWhitespace (case o_text normalized of Some t \<Rightarrow> t | None \<Rightarrow> [])
          in Inr (if windowText \<noteq> [] then
                    st1\<lparr>accumulatedTexts := accumulatedTexts st1 @ [windowText],
                        posted := posted st1 @
                          [Partial (join_sp (accumulatedTexts st1 @ [windowText])) requestId]\<rparr>
                  else st1))"

definition progress_event :: "nat \<Rightarrow> nat \<Rightarrow> nat \<Rightarrow> WorkerResponse" where
  "progress_event requestId processed totalWindows =
     Progress \<lparr>p_phase = TranscribingPhase,
       p_progress = normalizeProgress (real processed / real totalWindows * 100),
       p_requestId = Some requestId,
       p_processedChunks = Some processed,
       p_totalChunks = Some totalWindows,
       p_currentSlice = Some 1,
       p_totalSlices = Some 1,
       p_loaded = None, p_total = None, p_file = None\<rparr>"

text \<open>One iteration of \<open>for (let i = 0; i < totalWindows; i++)\<close>: \<open>try\<close>, \<open>catch\<close>, progress.\<close>

definition process_window :: "Transcriber \<Rightarrow> nat \<Rightarrow> nat \<Rightarrow> WorkerLoop \<Rightarrow> nat \<Rightarrow> Window \<Rightarrow> WorkerLoop" where
  "process_window transcriber requestId totalWindows st i win =
     (let st1 = (case window_try transcriber requestId st i win of
                   Inl windowError \<Rightarrow> st
                 | Inr st' \<Rightarrow> st');
          processed = i + 1
      in st1\<lparr>posted := posted st1 @ [progress_event requestId processed totalWindows]\<rparr>)"

function windows_for :: "Transcriber \<Rightarrow> nat \<Rightarrow> Window list \<Rightarrow> WorkerLoop \<Rightarrow> nat \<Rightarrow> WorkerLoop" where
  "windows_for transcriber requestId windows st i =
     (if i < length windows
      then windows_for transcriber requestId windows
             (process_window transcriber requestId (length windows) st i (windows ! i)) (i + 1)
      else st)"
  by pat_completeness auto
termination
  by (relation "measure (\<lambda>(transcriber, requestId, windows, st, i). length windows - i)") auto

declare windows_for.simps [simp del]

text \<open>
  The \<open>transcribe\<close> branch of the worker's message handler once \<open>getTranscriber()\<close> has
  returned: the list of messages it posts, in order.
\<close>

definition transcribe :: "Transcriber \<Rightarrow> string option \<Rightarrow> nat \<Rightarrow> real list \<Rightarrow> WorkerResponse list" where
  "transcribe transcriber activeDev requestId audio =
     (let windows = buildWindows audio;
          totalWindows = length windows;
          st0 = \<lparr>accumulatedTexts = [], allSegments = [],
                 posted =
                   [Status \<lparr>s_status = W_transcribing, s_requestId = Some requestId,
                            s_detail = None, s_device = activeDev\<rparr>,
                    Progress \<lparr>p_phase = TranscribingPhase, p_progress = 0,
                              p_requestId = Some requestId, p_processedChunks = Some 0,
                              p_totalChunks = Some totalWindows, p_currentSlice = Some 1,
                              p_totalSlices = Some 1, p_loaded = None, p_total = None,
                              p_file = None\<rparr>]\<rparr>;
          st = windows_for transcriber requestId windows st0 0;
          segs = dedupeSegments (allSegments st);
          rawFullText = collapseConsecutiveRepeatedNgrams (join_sp (accumulatedTexts st));
          segs' = (if length segs = 0 \<and> rawFullText \<noteq> []
                   then [\<lparr>seg_text = rawFullText, seg_start = 0, seg_end = 0\<rparr>] else segs);
          fromSegs = collapseConsecutiveRepeatedNgrams (join_sp (map seg_text segs'));
          canonicalText = (if fromSegs \<noteq> [] then fromSegs else rawFullText)
      in posted st @
           [Segments requestId canonicalText segs',
            Result canonicalText requestId,
            Status \<lparr>s_status = W_ready, s_requestId = Some requestId,
                    s_detail = None, s_device = None\<rparr>])"

text \<open>
  The whole \<open>transcribe\<close> branch: \<open>getTranscriber()\<close> either throws (\<open>Inl\<close>, the outer
  \<open>catch\<close> posts the error for this request) or gives the backend and the active device.
  The status and download messages that \<open>getTranscriber\<close> posts itself carry no request id
  and are not in the list.
\<close>

definition transcribe_handler ::
    "string + (Transcriber \<times> string option) \<Rightarrow> nat \<Rightarrow> real list \<Rightarrow> WorkerResponse list" where
  "transcribe_handler got requestId audio =
     (case got of
        Inl msg \<Rightarrow>
          [Status \<lparr>s_status = W_error, s_requestId = Some requestId,
                   s_detail = Some msg, s_device = None\<rparr>,
           ErrorMsg msg (Some requestId)]
      | Inr (transcriber, activeDev) \<Rightarrow> transcribe transcriber activeDev requestId audio)"

section \<open>The main thread: state, message handler, cancel and start\<close>

datatype TranscriptionStatus = Idle | Loading | Decoding | Transcribing | Ready | Error

datatype ViewMode = Plain | Timestamps

datatype CopyState = CopyIdle | CopySuccess | CopyError

text \<open>
  The refs and the React state of \<open>Home\<close> that the handler, \<open>cancelTranscription\<close> and the
  synchronous part of \<open>startTranscription\<close> read or write.  A \<open>setX(v)\<close> is modelled as the
  assignment of the field; a callback reads the state of the moment it runs.  \<open>workerRef\<close>,
  \<open>abortControllerRef\<close> hold whether the ref is set; \<open>modelCached\<close> is the
  \<open>whisper_model_cached\<close> entry of \<open>localStorage\<close>; \<open>workerSupported\<close> is
  \<open>typeof Worker !== "undefined"\<close>.
\<close>

record MainState =
  activeRequestId :: nat
  transcribeStartedAt :: "nat option"
  workerRef :: bool
  abortControllerRef :: bool
  status :: TranscriptionStatus
  progress :: real
  progressPhase :: "ProgressPhase option"
  processedChunks :: "nat option"
  totalChunks :: "nat option"
  etaSeconds :: "int option"
  output_text :: string
  segments :: "TranscriptSegment list"
  error :: "string option"
  activeFileName :: "string option"
  selectedLanguage :: "string option"
  copyState :: CopyState
  copyFeedback :: "string option"
  isCancelling :: bool
  isExportMenuOpen :: bool
  downloadedBytes :: "nat option"
  totalBytes :: "nat option"
  viewMode :: ViewMode
  loadingDetail :: "string option"
  activeDevice :: "string option"
  currentSlice :: "nat option"
  totalSlices :: "nat option"
  isMobile :: bool
  isViaCloud :: bool
  wasModelEverLoaded :: bool
  modelCached :: bool
  workerSupported :: bool

definition clampProgress :: "real \<Rightarrow> real" where
  "clampProgress v = max 0 (min 100 v)"

definition clearProgressState :: "MainState \<Rightarrow> MainState" where
  "clearProgressState st =
     st\<lparr>progress := 0, progressPhase := None, processedChunks := None, totalChunks := None,
        etaSeconds := None, downloadedBytes := None, totalBytes := None, loadingDetail := None,
        currentSlice := None, totalSlices := None, transcribeStartedAt := None\<rparr>"

text \<open>\<open>if (message.detail)\<close>, \<open>if (message.device)\<close>: the field is a non-empty string.\<close>

definition truthy :: "string option \<Rightarrow> bool" where
  "truthy v \<longleftrightarrow> (case v of None \<Rightarrow> False | Some t \<Rightarrow> t \<noteq> [])"

text \<open>
  \<open>typeof message.requestId === "number" && message.requestId !== activeRequestIdRef.current\<close>
\<close>

definition stale :: "nat option \<Rightarrow> MainState \<Rightarrow> bool" where
  "stale rid st \<longleftrightarrow> (case rid of None \<Rightarrow> False | Some r \<Rightarrow> r \<noteq> activeRequestId st)"

definition set_device :: "string option \<Rightarrow> MainState \<Rightarrow> MainState" where
  "set_device dev st = (if truthy dev then st\<lparr>activeDevice := dev\<rparr> else st)"

text \<open>The branch \<open>message.type === "status"\<close> of \<open>handleWorkerMessage\<close> (src/app/page.tsx).\<close>

definition on_status :: "StatusMsg \<Rightarrow> MainState \<Rightarrow> MainState" where
  "on_status m st =
     (if stale (s_requestId m) st then st
      else
        let st1 =
          (case s_status m of
             W_loading \<Rightarrow>
               set_device (s_device m)
                 ((if truthy (s_detail m) then (\<lambda>x. x\<lparr>loadingDetail := s_detail m\<rparr>) else id)
                    (st\<lparr>status := Loading\<rparr>))
           | W_transcribing \<Rightarrow>
               set_device (s_device m)
                 (st\<lparr>status := Transcribing, loadingDetail := None, progress := 0,
                     progressPhase := Some TranscribingPhase\<rparr>)
           | W_ready \<Rightarrow>
               (set_device (s_device m) (st\<lparr>status := Ready, loadingDetail := None\<rparr>))
                 \<lparr>progressPhase := None, processedChunks := None, totalChunks := None,
                  etaSeconds := None, transcribeStartedAt := None,
                  wasModelEverLoaded := True, modelCached := True\<rparr>
           | W_error \<Rightarrow>
               clearProgressState (st\<lparr>status := Error, loadingDetail := None\<rparr>))
        in if truthy (s_detail m) \<and> s_status m = W_error then st1\<lparr>error := s_detail m\<rparr> else st1)"

text \<open>The branch \<open>message.type === "progress"\<close>; \<open>now\<close> is \<open>Date.now()\<close>.\<close>

definition set_opt :: "nat option \<Rightarrow> (nat option \<Rightarrow> MainState \<Rightarrow> MainState) \<Rightarrow> MainState \<Rightarrow> MainState" where
  "set_opt v upd st = (case v of None \<Rightarrow> st | Some x \<Rightarrow> upd (Some x) st)"

definition on_progress :: "nat \<Rightarrow> ProgressMsg \<Rightarrow> MainState \<Rightarrow> MainState" where
  "on_progress now m st =
     (if p_phase m = TranscribingPhase \<and> stale (p_requestId m) st then st
      else
        let st1 = st\<lparr>progressPhase := Some (p_phase m), progress := clampProgress (p_progress m)\<rparr> in
        if p_phase m = Download then
          (let st2 = st1\<lparr>status := Loading, processedChunks := None, totalChunks := None,
                         etaSeconds := None, transcribeStartedAt := None\<rparr>;
               st3 = set_opt (p_loaded m) (\<lambda>v x. x\<lparr>downloadedBytes := v\<rparr>) st2
           in (case p_total m of
                 Some t \<Rightarrow> if t > 0 then st3\<lparr>totalBytes := Some t\<rparr> else st3
               | None \<Rightarrow> st3))
        else
          (let st2 = st1\<lparr>status := Transcribing, processedChunks := p_processedChunks m,
                         totalChunks := p_totalChunks m\<rparr>;
               st3 = set_opt (p_currentSlice m) (\<lambda>v x. x\<lparr>currentSlice := v\<rparr>) st2;
               st4 = set_opt (p_totalSlices m) (\<lambda>v x. x\<lparr>totalSlices := v\<rparr>) st3;
               st5 = (if transcribeStartedAt st4 = None
                      then st4\<lparr>transcribeStartedAt := Some now\<rparr> else st4)
           in (case (p_processedChunks m, p_totalChunks m, transcribeStartedAt st5) of
                 (Some processed, Some totalN, Some startedAt) \<Rightarrow>
                   if processed > 0 \<and> totalN \<ge> processed then
                     (let elapsedSeconds = (real now - real startedAt) / 1000;
                          averageChunkSeconds = elapsedSeconds / real processed;
                          remainingChunks = max (real totalN - real processed) 0;
                          estimatedRemaining = \<lceil>averageChunkSeconds * remainingChunks\<rceil>
                      in st5\<lparr>etaSeconds := Some estimatedRemaining\<rparr>)
                   else st5\<lparr>etaSeconds := None\<rparr>
               | _ \<Rightarrow> st5\<lparr>etaSeconds := None\<rparr>)))"

definition finish_fields :: "MainState \<Rightarrow> MainState" where
  "finish_fields st =
     st\<lparr>status := Ready, progressPhase := None, processedChunks := None, totalChunks := None,
        etaSeconds := None, transcribeStartedAt := None\<rparr>"

text \<open>\<open>handleWorkerMessage\<close> of src/app/page.tsx.\<close>

fun handleWorkerMessage :: "nat \<Rightarrow> WorkerResponse \<Rightarrow> MainState \<Rightarrow> MainState" where
  "handleWorkerMessage now (Status m) st = on_status m st"
| "handleWorkerMessage now (Progress m) st = on_progress now m st"
| "handleWorkerMessage now (Partial txt requestId) st =
     (if requestId \<noteq> activeRequestId st then st
      else st\<lparr>status := Transcribing, output_text := txt\<rparr>)"
| "handleWorkerMessage now (Segments requestId txt segs) st =
     (if requestId \<noteq> activeRequestId st then st
      else finish_fields (st\<lparr>segments := segs, output_text := txt\<rparr>))"
| "handleWorkerMessage now (Result txt requestId) st =
     (if requestId \<noteq> activeRequestId st then st
      else finish_fields (st\<lparr>output_text := txt\<rparr>))"
| "handleWorkerMessage now (ErrorMsg err requestId) st =
     (if stale requestId st then st
      else clearProgressState (st\<lparr>status := Error, error := Some err\<rparr>))"

text \<open>
  The earlier \<open>handleWorkerMessage\<close> (src/unnamed/part_002), on the same state: it has no
  \<open>loadingDetail\<close>, \<open>activeDevice\<close> or slice fields, and its \<open>clearProgressState\<close> resets
  fewer fields.
\<close>

definition clearProgressState_002 :: "MainState \<Rightarrow> MainState" where
  "clearProgressState_002 st =
     st\<lparr>progress := 0, progressPhase := None, processedChunks := None, totalChunks := None,
        etaSeconds := None, downloadedBytes := None, totalBytes := None,
        transcribeStartedAt := None\<rparr>"

definition on_status_002 :: "StatusMsg \<Rightarrow> MainState \<Rightarrow> MainState" where
  "on_status_002 m st =
     (if stale (s_requestId m) st then st
      else
        let st1 =
          (case s_status m of
             W_loading \<Rightarrow> st\<lparr>status := Loading\<rparr>
           | W_transcribing \<Rightarrow> st\<lparr>status := Transcribing\<rparr>
           | W_ready \<Rightarrow> finish_fields st
           | W_error \<Rightarrow> clearProgressState_002 (st\<lparr>status := Error\<rparr>))
        in if truthy (s_detail m) \<and> s_status m = W_error then st1\<lparr>error := s_detail m\<rparr> else st1)"

definition on_progress_002 :: "nat \<Rightarrow> ProgressMsg \<Rightarrow> MainState \<Rightarrow> MainState" where
  "on_progress_002 now m st =
     (if p_phase m = TranscribingPhase \<and> stale (p_requestId m) st then st
      else
        let st1 = st\<lparr>progressPhase := Some (p_phase m), progress := clampProgress (p_progress m)\<rparr> in
        if p_phase m = Download then
          (let st2 = st1\<lparr>status := Loading, processedChunks := None, totalChunks := None,
                         etaSeconds := None, transcribeStartedAt := None\<rparr>;
               st3 = set_opt (p_loaded m) (\<lambda>v x. x\<lparr>downloadedBytes := v\<rparr>) st2
           in (case p_total m of
                 Some t \<Rightarrow> if t > 0 then st3\<lparr>totalBytes := Some t\<rparr> else st3
               | None \<Rightarrow> st3))
        else
          (let st2 = st1\<lparr>status := Transcribing, processedChunks := p_processedChunks m,
                         totalChunks := p_totalChunks m\<rparr>;
               st5 = (if transcribeStartedAt st2 = None
                      then st2\<lparr>transcribeStartedAt := Some now\<rparr> else st2)
           in (case (p_processedChunks m, p_totalChunks m, transcribeStartedAt st5) of
                 (Some processed, Some totalN, Some startedAt) \<Rightarrow>
                   if processed > 0 \<and> totalN \<ge> processed then
                     (let elapsedSeconds = (real now - real startedAt) / 1000;
                          averageChunkSeconds = elapsedSeconds / real processed;
                          remainingChunks = max (real totalN - real processed) 0;
                          estimatedRemaining = \<lceil>averageChunkSeconds * remainingChunks\<rceil>
                      in st5\<lparr>etaSeconds := Some estimatedRemaining\<rparr>)
                   else st5\<lparr>etaSeconds := None\<rparr>
               | _ \<Rightarrow> st5\<lparr>etaSeconds := None\<rparr>)))"

fun handleWorkerMessage_002 :: "nat \<Rightarrow> WorkerResponse \<Rightarrow> MainState \<Rightarrow> MainState" where
  "handleWorkerMessage_002 now (Status m) st = on_status_002 m st"
| "handleWorkerMessage_002 now (Progress m) st = on_progress_002 now m st"
| "handleWorkerMessage_002 now (Partial txt requestId) st =
     (if requestId \<noteq> activeRequestId st then st
      else st\<lparr>status := Transcribing, output_text := txt\<rparr>)"
| "handleWorkerMessage_002 now (Segments requestId txt segs) st =
     (if requestId \<noteq> activeRequestId st then st
      else finish_fields (st\<lparr>segments := segs, output_text := txt\<rparr>))"
| "handleWorkerMessage_002 now (Result txt requestId) st =
     (if requestId \<noteq> activeRequestId st then st
      else finish_fields (st\<lparr>output_text := txt\<rparr>))"
| "handleWorkerMessage_002 now (ErrorMsg err requestId) st =
     (if stale requestId st then st
      else clearProgressState_002 (st\<lparr>status := Error, error := Some err\<rparr>))"

text \<open>
  \<open>cancelTranscription\<close> (src/app/page.tsx).  The \<open>cancel\<close> message it posts is ignored by
  the worker (its handler returns on every type but \<open>load\<close> and \<open>transcribe\<close>), so a running
  job goes on posting.  In the other branch the worker is terminated and \<open>initializeWorker\<close>
  makes a new one; where workers are unsupported its microtask reports the error.  The
  timer that resets \<open>isCancelling\<close> after 300 ms is the event \<open>CancellingElapsed\<close> below.
\<close>

definition cancelTranscription :: "MainState \<Rightarrow> MainState" where
  "cancelTranscription st =
     (let st1 = clearProgressState
                  (st\<lparr>activeRequestId := activeRequestId st + 1, isCancelling := True,
                      error := None\<rparr>);
          st2 = (if abortControllerRef st
                 then st1\<lparr>abortControllerRef := False, isViaCloud := False, status := Ready,
                          activeFileName := None\<rparr>
                 else st1);
          isModelLoaded = (status st = Ready \<or> status st = Transcribing \<or> status st = Decoding)
      in if isModelLoaded \<and> \<not> isViaCloud st
         then st2\<lparr>status := Ready, activeFileName := None\<rparr>
         else if workerSupported st
         then st2\<lparr>workerRef := True, status := Idle\<rparr>
         else st2\<lparr>workerRef := False, status := Error,
                  error := Some ''Web Workers are not supported in this browser.''\<rparr>)"

text \<open>
  \<open>handleFileSelected\<close> and the synchronous part of \<open>startTranscription\<close>, up to its first
  \<open>await\<close>: it takes the next request id and resets the transcript.
\<close>

definition startTranscription :: "string \<Rightarrow> MainState \<Rightarrow> MainState" where
  "startTranscription fileName st =
     (let st1 = (if status st = Transcribing \<or> status st = Decoding
                 then cancelTranscription st else st)
      in if \<not> isMobile st \<and> \<not> workerRef st1
         then st1\<lparr>status := Error, error := Some ''Transcription worker is not available.''\<rparr>
         else
           let requestId = activeRequestId st1 + 1;
               st2 = clearProgressState
                       (st1\<lparr>activeRequestId := requestId, activeFileName := Some fileName,
                            output_text := [], segments := [], viewMode := Plain,
                            copyState := CopyIdle, copyFeedback := None,
                            isExportMenuOpen := False, error := None\<rparr>)
           in if isMobile st
              then st2\<lparr>isViaCloud := True, status := Transcribing,
                       progressPhase := Some TranscribingPhase,
                       loadingDetail := Some ''Uploading to Cloud...'', progress := 0,
                       abortControllerRef := True\<rparr>
              else st2\<lparr>status := Decoding\<rparr>)"

definition handleFileSelected :: "string \<Rightarrow> MainState \<Rightarrow> MainState" where
  "handleFileSelected fileName st =
     (if selectedLanguage st = None then st else startTranscription fileName st)"

text \<open>What happens on the main thread, one event after the other.\<close>

datatype UiEvent =
    CancelClicked
  | CancellingElapsed
  | FileSelected string
  | WorkerMessage nat WorkerResponse

fun ui_step :: "MainState \<Rightarrow> UiEvent \<Rightarrow> MainState" where
  "ui_step st CancelClicked = cancelTranscription st"
| "ui_step st CancellingElapsed = st\<lparr>isCancelling := False\<rparr>"
| "ui_step st (FileSelected fileName) = handleFileSelected fileName st"
| "ui_step st (WorkerMessage now m) = handleWorkerMessage now m st"

definition ui_run :: "MainState \<Rightarrow> UiEvent list \<Rightarrow> MainState" where
  "ui_run st evs = foldl ui_step st evs"

section \<open>Predicates of the statements\<close>

text \<open>
  A list of words has no two adjacent identical runs of \<open>g\<close> words, for any gram size
  \<open>3 \<le> g \<le> 20\<close> the collapse can use.
\<close>

definition no_repeats :: "string list \<Rightarrow> bool" where
  "no_repeats ws \<longleftrightarrow>
     list_all (\<lambda>g. list_all (\<lambda>i. \<not> repeated ws g i) [g * 2..<Suc (length ws)]) [3..<21]"



text \<open>The \<open>(processedChunks, totalChunks)\<close> of the transcribing-progress messages of a list.\<close>

fun progress_counts :: "WorkerResponse list \<Rightarrow> (nat option \<times> nat option) list" where
  "progress_counts [] = []"
| "progress_counts (Progress m # rest) =
     (if p_phase m = TranscribingPhase
      then (p_processedChunks m, p_totalChunks m) # progress_counts rest
      else progress_counts rest)"
| "progress_counts (m # rest) = progress_counts rest"

text \<open>
  The segments window \<open>i\<close> adds to \<open>allSegments\<close> and the text it adds to
  \<open>accumulatedTexts\<close>, read off the answer of the backend.
\<close>

definition window_segments :: "Transcriber \<Rightarrow> Window list \<Rightarrow> nat \<Rightarrow> TranscriptSegment list" where
  "window_segments transcriber windows i =
     (case transcriber i (data (windows ! i)) of
        Inl windowError \<Rightarrow> []
      | Inr normalized \<Rightarrow>
          collect_chunks (offsetS (windows ! i)) []
            (case o_chunks normalized of Some cs \<Rightarrow> cs | None \<Rightarrow> []))"

definition window_texts :: "Transcriber \<Rightarrow> Window list \<Rightarrow> nat \<Rightarrow> string list" where
  "window_texts transcriber windows i =
     (case transcriber i (data (windows ! i)) of
        Inl windowError \<Rightarrow> []
      | Inr normalized \<Rightarrow>
          (let windowText = normalizeWhitespace (case o_text normalized of Some t \<Rightarrow> t | None \<Rightarrow> [])
           in if windowText \<noteq> [] then [windowText] else []))"

text \<open>A message that carries the request id \<open>r\<close>, of a kind the worker posts for a job.\<close>

fun tagged :: "nat \<Rightarrow> WorkerResponse \<Rightarrow> bool" where
  "tagged r (Status m) \<longleftrightarrow> s_requestId m = Some r"
| "tagged r (Progress m) \<longleftrightarrow> p_requestId m = Some r \<and> p_phase m = TranscribingPhase"
| "tagged r (Partial txt q) \<longleftrightarrow> q = r"
| "tagged r (Segments q txt segs) \<longleftrightarrow> q = r"
| "tagged r (Result txt q) \<longleftrightarrow> q = r"
| "tagged r (ErrorMsg err q) \<longleftrightarrow> q = Some r"

text \<open>A word as \<open>split(" ")\<close> gives it for a normalised text: non-empty, without whitespace.\<close>

definition clean_word :: "string \<Rightarrow> bool" where
  "clean_word w \<longleftrightarrow> w \<noteq> [] \<and> (\<forall>c \<in> set w. \<not> is_space c)"

text \<open>The only whitespace of a text is the space, and no two spaces are adjacent.\<close>

definition single_spaced :: "string \<Rightarrow> bool" where
  "single_spaced s \<longleftrightarrow>
     (\<forall>c \<in> set s. is_space c \<longrightarrow> c = CHR '' '') \<and>
     successively (\<lambda>a b. \<not> (a = CHR '' '' \<and> b = CHR '' '')) s"

text \<open>The invariants of \<open>deduped\<close> along the loop of \<open>dedupeSegments\<close>.\<close>

definition well_timed :: "TranscriptSegment list \<Rightarrow> bool" where
  "well_timed ds \<longleftrightarrow> sorted (map seg_start ds) \<and> (\<forall>y \<in> set ds. seg_start y \<le> seg_end y)"

definition kept_text :: "TranscriptSegment \<Rightarrow> bool" where
  "kept_text y \<longleftrightarrow> collapseConsecutiveRepeatedNgrams (seg_text y) \<noteq> []"

text \<open>A message that reports the failure of a job.\<close>

fun is_failure :: "WorkerResponse \<Rightarrow> bool" where
  "is_failure (ErrorMsg err q) \<longleftrightarrow> True"
| "is_failure (Status m) \<longleftrightarrow> s_status m = W_error"
| "is_failure m \<longleftrightarrow> False"

section \<open>Words of a normalised text\<close>

lemma is_space_sp [simp]: "is_space (CHR '' '')"
  by (simp add: is_space_def)

subsection \<open>Joining and splitting\<close>

lemma split_sp_not_Nil [simp]: "split_sp s \<noteq> []"
  by (induction s) (auto split: list.splits)

lemma join_split [simp]: "join_sp (split_sp s) = s"
proof (induction s)
  case Nil
  then show ?case by simp
next
  case (Cons c cs)
  obtain w ws where sp: "split_sp cs = w # ws"
    by (cases "split_sp cs") auto
  show ?case
  proof (cases "c = CHR '' ''")
    case True
    with Cons sp show ?thesis by simp
  next
    case False
    with Cons sp show ?thesis by (cases ws) auto
  qed
qed

lemma split_sp_no_sp: "CHR '' '' \<notin> set w \<Longrightarrow> split_sp (w @ CHR '' '' # r) = w # split_sp r"
  by (induction w) auto

lemma split_sp_word: "CHR '' '' \<notin> set w \<Longrightarrow> split_sp w = [w]"
  by (induction w) auto

lemma clean_no_sp: "clean_word w \<Longrightarrow> CHR '' '' \<notin> set w"
  by (auto simp: clean_word_def)

lemma split_join: "ws \<noteq> [] \<Longrightarrow> list_all clean_word ws \<Longrightarrow> split_sp (join_sp ws) = ws"
proof (induction ws rule: join_sp.induct)
  case 1
  then show ?case by simp
next
  case (2 w)
  then show ?case by (simp add: split_sp_word clean_no_sp)
next
  case (3 w v vs)
  then show ?case by (simp add: split_sp_no_sp clean_no_sp)
qed

lemma join_sp_Cons: "ws \<noteq> [] \<Longrightarrow> join_sp (w # ws) = w @ CHR '' '' # join_sp ws"
  by (cases ws) auto

lemma join_clean_hd: "ws \<noteq> [] \<Longrightarrow> list_all clean_word ws \<Longrightarrow>
   join_sp ws \<noteq> [] \<and> \<not> is_space (hd (join_sp ws))"
  by (cases ws rule: join_sp.cases) (auto simp: clean_word_def)

lemma join_sp_not_Nil: "w \<noteq> [] \<Longrightarrow> join_sp (w # ws) \<noteq> []"
  by (cases ws) auto

lemma join_clean_last: "ws \<noteq> [] \<Longrightarrow> list_all clean_word ws \<Longrightarrow> \<not> is_space (last (join_sp ws))"
  by (induction ws rule: join_sp.induct) (auto simp: clean_word_def join_sp_not_Nil)

subsection \<open>Whitespace normalisation of joined clean words\<close>

lemma replace_ws_clean_app:
  "\<forall>c \<in> set w. \<not> is_space c \<Longrightarrow> replace_ws (w @ r) = w @ replace_ws r"
  by (induction w) auto

lemma dropWhile_id_hd: "s \<noteq> [] \<Longrightarrow> \<not> P (hd s) \<Longrightarrow> dropWhile P s = s"
  by (cases s) auto

lemma replace_ws_join: "list_all clean_word ws \<Longrightarrow> replace_ws (join_sp ws) = join_sp ws"
proof (induction ws rule: join_sp.induct)
  case 1
  then show ?case by simp
next
  case (2 w)
  then show ?case using replace_ws_clean_app[of w "[]"] by (simp add: clean_word_def)
next
  case (3 w v vs)
  have "dropWhile is_space (join_sp (v # vs)) = join_sp (v # vs)"
    using join_clean_hd[of "v # vs"] 3 by (intro dropWhile_id_hd) auto
  with 3 show ?case
    using replace_ws_clean_app[of w "CHR '' '' # join_sp (v # vs)"]
    by (simp add: clean_word_def)
qed

lemma trim_id: "s \<noteq> [] \<Longrightarrow> \<not> is_space (hd s) \<Longrightarrow> \<not> is_space (last s) \<Longrightarrow> trim s = s"
  by (simp add: trim_def dropWhile_id_hd hd_rev)

lemma trim_Nil [simp]: "trim [] = []"
  by (simp add: trim_def)

lemma trim_join: "list_all clean_word ws \<Longrightarrow> trim (join_sp ws) = join_sp ws"
  by (cases "ws = []") (auto intro!: trim_id simp: join_clean_hd join_clean_last)

lemma normalizeWhitespace_join:
  "list_all clean_word ws \<Longrightarrow> normalizeWhitespace (join_sp ws) = join_sp ws"
  by (simp add: normalizeWhitespace_def replace_ws_join trim_join)

subsection \<open>The words of a normalised text are clean\<close>

lemma replace_ws_hd:
  "u \<noteq> [] \<Longrightarrow> \<not> is_space (hd u) \<Longrightarrow> replace_ws u = hd u # replace_ws (tl u)"
  by (cases u) auto

lemma single_spaced_replace_ws: "single_spaced (replace_ws t)"
proof (induction t rule: replace_ws.induct)
  case 1
  then show ?case by (simp add: single_spaced_def)
next
  case (2 c cs)
  show ?case
  proof (cases "is_space c")
    case False
    with 2 show ?thesis
      by (cases "replace_ws cs") (auto simp: single_spaced_def)
  next
    case True
    let ?u = "dropWhile is_space cs"
    have ih: "single_spaced (replace_ws ?u)" using 2 True by simp
    show ?thesis
    proof (cases "?u = []")
      case True
      with \<open>is_space c\<close> show ?thesis
        by (simp add: single_spaced_def del: dropWhile_eq_Nil_conv)
    next
      case False
      then have "\<not> is_space (hd ?u)" by (rule hd_dropWhile)
      with False have "replace_ws ?u = hd ?u # replace_ws (tl ?u)" by (rule replace_ws_hd)
      with ih \<open>is_space c\<close> \<open>\<not> is_space (hd ?u)\<close> show ?thesis
        by (auto simp: single_spaced_def)
    qed
  qed
qed

lemma single_spaced_ConsD: "single_spaced (c # s) \<Longrightarrow> single_spaced s"
  by (cases s) (auto simp: single_spaced_def)

lemma single_spaced_dropWhile: "single_spaced s \<Longrightarrow> single_spaced (dropWhile P s)"
  by (induction s) (auto dest: single_spaced_ConsD)

lemma single_spaced_rev: "single_spaced (rev s) \<longleftrightarrow> single_spaced s"
proof -
  have e: "(\<lambda>x y. \<not> (y = CHR '' '' \<and> x = CHR '' '')) = (\<lambda>a b. \<not> (a = CHR '' '' \<and> b = CHR '' ''))"
    by (intro ext) auto
  show ?thesis unfolding single_spaced_def successively_rev set_rev e ..
qed

lemma single_spaced_trim: "single_spaced s \<Longrightarrow> single_spaced (trim s)"
  by (simp add: trim_def single_spaced_rev single_spaced_dropWhile)

lemma trim_ends:
  assumes "trim s \<noteq> []"
  shows "\<not> is_space (hd (trim s))" "\<not> is_space (last (trim s))"
proof -
  let ?v = "dropWhile is_space s"
  let ?w = "dropWhile is_space (rev ?v)"
  have w: "?w \<noteq> []" using assms by (simp add: trim_def)
  have v: "?v \<noteq> []"
  proof
    assume e: "?v = []"
    have "?w = []" unfolding e by simp
    with w show False ..
  qed
  have "\<not> is_space (hd ?w)" using w by (rule hd_dropWhile)
  then show "\<not> is_space (last (trim s))"
    using w by (simp add: trim_def last_rev)
  have "\<not> is_space (hd ?v)" using v by (rule hd_dropWhile)
  moreover have "last ?w = last (rev ?v)"
    using w last_appendR[of ?w "takeWhile is_space (rev ?v)"] by simp
  ultimately show "\<not> is_space (hd (trim s))"
    using w v by (simp add: trim_def hd_rev last_rev)
qed

lemma split_clean:
  "single_spaced s \<Longrightarrow> s \<noteq> [] \<Longrightarrow> \<not> is_space (hd s) \<Longrightarrow> \<not> is_space (last s) \<Longrightarrow>
   list_all clean_word (split_sp s)"
proof (induction s rule: length_induct)
  case (1 s)
  let ?w = "takeWhile (\<lambda>c. c \<noteq> CHR '' '') s"
  let ?r = "dropWhile (\<lambda>c. c \<noteq> CHR '' '') s"
  have sp_only: "\<And>c. c \<in> set s \<Longrightarrow> is_space c \<Longrightarrow> c = CHR '' ''"
    using 1(2) by (auto simp: single_spaced_def)
  have wne: "?w \<noteq> []" using 1(3,4) by (cases s) auto
  have wclean: "clean_word ?w"
    unfolding clean_word_def
  proof (intro conjI ballI)
    show "?w \<noteq> []" by (rule wne)
    fix c assume c: "c \<in> set ?w"
    then have "c \<noteq> CHR '' ''" by (auto dest: set_takeWhileD)
    moreover have "c \<in> set s" using c by (auto dest: set_takeWhileD)
    ultimately show "\<not> is_space c" using sp_only by blast
  qed
  have nosp: "CHR '' '' \<notin> set ?w" by (auto dest: set_takeWhileD)
  show ?case
  proof (cases "?r = []")
    case True
    then have eq: "?w = s" by simp
    show ?thesis using wclean split_sp_word[OF nosp] unfolding eq by simp
  next
    case False
    then have hdr: "hd ?r = CHR '' ''" using hd_dropWhile[of "\<lambda>c. c \<noteq> CHR '' ''" s] by simp
    then obtain r' where r': "?r = CHR '' '' # r'" using False by (cases ?r) auto
    have s: "s = ?w @ CHR '' '' # r'"
      using takeWhile_dropWhile_id[of "\<lambda>c. c \<noteq> CHR '' ''" s] r'
      by (simp del: takeWhile_dropWhile_id)
    have r'ne: "r' \<noteq> []"
    proof
      assume "r' = []"
      then have "last s = last (?w @ [CHR '' ''])" using s by simp
      then have "last s = CHR '' ''" by simp
      with 1(5) show False by simp
    qed
    have ss_r: "single_spaced (CHR '' '' # r')"
      using single_spaced_dropWhile[OF 1(2), of "\<lambda>c. c \<noteq> CHR '' ''"] r' by simp
    then have ss_r': "single_spaced r'" by (rule single_spaced_ConsD)
    have "hd r' \<noteq> CHR '' ''" using ss_r r'ne by (cases r') (auto simp: single_spaced_def)
    moreover have "hd r' \<in> set r'" using r'ne by simp
    then have "hd r' \<in> set s" by (subst s) simp
    ultimately have hd': "\<not> is_space (hd r')" using sp_only by blast
    have "last s = last (?w @ CHR '' '' # r')" using s by simp
    then have "last s = last r'" using r'ne by simp
    then have last': "\<not> is_space (last r')" using 1(5) by simp
    have "length s = length (?w @ CHR '' '' # r')" using s by simp
    then have "length r' < length s" by simp
    then have "list_all clean_word (split_sp r')"
      using 1(1) ss_r' r'ne hd' last' by blast
    moreover have "split_sp s = split_sp (?w @ CHR '' '' # r')" using s by simp
    then have "split_sp s = ?w # split_sp r'"
      using split_sp_no_sp[OF nosp, of r'] by simp
    ultimately show ?thesis using wclean by simp
  qed
qed

lemma words_clean:
  assumes "normalizeWhitespace t \<noteq> []"
  shows "list_all clean_word (split_sp (normalizeWhitespace t))"
  unfolding normalizeWhitespace_def
  using assms trim_ends[of "replace_ws t"]
  by (intro split_clean single_spaced_trim single_spaced_replace_ws)
     (simp_all add: normalizeWhitespace_def)

section \<open>The repeated n-gram collapse\<close>

subsection \<open>The loop\<close>

lemma set_splice: "set (splice ws a n) \<subseteq> set ws"
  by (auto simp: splice_def dest: in_set_takeD in_set_dropD)

lemma collapse_loop_set: "set (collapse_loop ws g i) \<subseteq> set ws"
proof (induction ws g i rule: collapse_loop.induct)
  case (1 ws g i)
  show ?case
    using 1 set_splice[of ws "i - g" g]
    by (subst collapse_loop.simps) (auto simp del: collapse_loop.simps)
qed

lemma collapse_loop_not_Nil: "ws \<noteq> [] \<Longrightarrow> collapse_loop ws g i \<noteq> []"
proof (induction ws g i rule: collapse_loop.induct)
  case (1 ws g i)
  have "splice ws (i - g) g \<noteq> []" if "\<not> g < 3" "\<not> i < g * 2" "i \<le> length ws"
    using that 1(4) by (auto simp: splice_def)
  with 1 show ?case
    by (subst collapse_loop.simps) auto
qed

lemma no_repeats_iff:
  "no_repeats ws \<longleftrightarrow> (\<forall>g \<in> {3..<21}. \<forall>i \<in> {g * 2..<Suc (length ws)}. \<not> repeated ws g i)"
  unfolding no_repeats_def list_all_iff set_upt ..

lemma collapse_loop_fixed:
  "no_repeats ws \<Longrightarrow> g \<le> 20 \<Longrightarrow> collapse_loop ws g i = ws"
proof (induction ws g i rule: collapse_loop.induct)
  case (1 ws g i)
  have nr: "\<not> repeated ws g i" if "\<not> g < 3" "\<not> i < g * 2" "i \<le> length ws"
    using that 1(4,5) by (auto simp: no_repeats_iff)
  show ?case
    using 1 nr by (subst collapse_loop.simps) auto
qed

subsection \<open>The shape of a collapsed text\<close>

lemma normalizeWhitespace_Nil [simp]: "normalizeWhitespace [] = []"
  by (simp add: normalizeWhitespace_def)

lemma collapse_form:
  "collapseConsecutiveRepeatedNgrams t = [] \<or>
   (\<exists>ws. ws \<noteq> [] \<and> list_all clean_word ws \<and> collapseConsecutiveRepeatedNgrams t = join_sp ws)"
proof (cases "normalizeWhitespace t = []")
  case True
  then show ?thesis by (simp add: collapseConsecutiveRepeatedNgrams_def)
next
  case False
  let ?ws = "split_sp (normalizeWhitespace t)"
  have cl: "list_all clean_word ?ws" using False by (rule words_clean)
  show ?thesis
  proof (cases "length ?ws < 6")
    case True
    then have "collapseConsecutiveRepeatedNgrams t = join_sp ?ws"
      using False by (simp add: collapseConsecutiveRepeatedNgrams_def Let_def)
    with cl show ?thesis by (intro disjI2 exI[of _ ?ws]) simp
  next
    case long: False
    let ?g = "min 20 (length ?ws div 2)"
    let ?ws' = "collapse_loop ?ws ?g (?g * 2)"
    have cl': "list_all clean_word ?ws'"
      using cl collapse_loop_set[of ?ws ?g "?g * 2"] by (auto simp: list_all_iff)
    have ne: "?ws' \<noteq> []" by (rule collapse_loop_not_Nil) simp
    have "collapseConsecutiveRepeatedNgrams t = trim (join_sp ?ws')"
      using False long by (simp add: collapseConsecutiveRepeatedNgrams_def Let_def)
    then have "collapseConsecutiveRepeatedNgrams t = join_sp ?ws'"
      using cl' by (simp add: trim_join)
    with cl' ne show ?thesis by blast
  qed
qed

lemma collapse_join_shape:
  assumes "ws \<noteq> []" "list_all clean_word ws"
  shows "collapseConsecutiveRepeatedNgrams (join_sp ws) =
     (if length ws < 6 then join_sp ws
      else join_sp (collapse_loop ws (min 20 (length ws div 2)) (min 20 (length ws div 2) * 2)))"
proof -
  have n: "normalizeWhitespace (join_sp ws) = join_sp ws"
    using assms(2) by (rule normalizeWhitespace_join)
  have ne: "join_sp ws \<noteq> []" using join_clean_hd[OF assms] by simp
  have sp: "split_sp (join_sp ws) = ws" using assms by (rule split_join)
  let ?g = "min 20 (length ws div 2)"
  have "list_all clean_word (collapse_loop ws ?g (?g * 2))"
    using assms(2) collapse_loop_set[of ws ?g "?g * 2"] by (auto simp: list_all_iff)
  then have "trim (join_sp (collapse_loop ws ?g (?g * 2))) = join_sp (collapse_loop ws ?g (?g * 2))"
    by (rule trim_join)
  then show ?thesis
    using n ne sp by (simp add: collapseConsecutiveRepeatedNgrams_def Let_def)
qed

lemma collapse_join_fixed:
  assumes "ws \<noteq> []" "list_all clean_word ws" "no_repeats ws"
  shows "collapseConsecutiveRepeatedNgrams (join_sp ws) = join_sp ws"
  using collapse_join_shape[OF assms(1,2)] collapse_loop_fixed[OF assms(3)]
  by simp

lemma collapse_Nil [simp]: "collapseConsecutiveRepeatedNgrams [] = []"
  by (simp add: collapseConsecutiveRepeatedNgrams_def)

lemma collapse_collapse_not_Nil:
  assumes "collapseConsecutiveRepeatedNgrams t \<noteq> []"
  shows "collapseConsecutiveRepeatedNgrams (collapseConsecutiveRepeatedNgrams t) \<noteq> []"
proof -
  obtain ws where ws: "ws \<noteq> []" "list_all clean_word ws"
      "collapseConsecutiveRepeatedNgrams t = join_sp ws"
    using collapse_form[of t] assms by auto
  let ?g = "min 20 (length ws div 2)"
  let ?ws' = "collapse_loop ws ?g (?g * 2)"
  have "list_all clean_word ?ws'"
    using ws(2) collapse_loop_set[of ws ?g "?g * 2"] by (auto simp: list_all_iff)
  moreover have "?ws' \<noteq> []" using ws(1) by (rule collapse_loop_not_Nil)
  ultimately have "join_sp ?ws' \<noteq> []" using join_clean_hd by blast
  moreover have "join_sp ws \<noteq> []" using join_clean_hd[OF ws(1,2)] by simp
  ultimately show ?thesis
    unfolding ws(3) collapse_join_shape[OF ws(1,2)] by simp
qed

subsection \<open>Idempotence\<close>

lemma length_splice: "a + n \<le> length ws \<Longrightarrow> length (splice ws a n) = length ws - n"
  by (simp add: splice_def)

lemma collapse_loop_length: "length (collapse_loop ws g i) \<le> length ws"
proof (induction ws g i rule: collapse_loop.induct)
  case (1 ws g i)
  have "length (splice ws (i - g) g) \<le> length ws" if "\<not> i < g * 2" "i \<le> length ws"
    using that by (simp add: length_splice)
  with 1 show ?case
    by (subst collapse_loop.simps) (auto intro: order_trans)
qed

lemma collapse_loop_shrinks:
  "repeated ws g' i' \<Longrightarrow> 3 \<le> g' \<Longrightarrow> g' * 2 \<le> i' \<Longrightarrow> i' \<le> length ws \<Longrightarrow>
   g * 2 \<le> i \<Longrightarrow> g' < g \<or> (g' = g \<and> i \<le> i') \<Longrightarrow>
   length (collapse_loop ws g i) < length ws"
proof (induction ws g i rule: collapse_loop.induct)
  case (1 ws g i)
  have g3: "\<not> g < 3" using "1.prems"(2,6) by auto
  have i2: "\<not> i < g * 2" using "1.prems"(5) by simp
  show ?case
  proof (cases "i \<le> length ws")
    case True
    show ?thesis
    proof (cases "repeated ws g i")
      case rep: True
      have "length (splice ws (i - g) g) < length ws"
        using True i2 g3 by (simp add: length_splice)
      moreover have "length (collapse_loop (splice ws (i - g) g) g i) \<le> length (splice ws (i - g) g)"
        by (rule collapse_loop_length)
      ultimately show ?thesis
        using g3 i2 True rep by (subst collapse_loop.simps) simp
    next
      case False
      have "g' < g \<or> (g' = g \<and> i + 1 \<le> i')"
        using "1.prems"(1,6) False by (cases "i = i'") auto
      then have "length (collapse_loop ws g (i + 1)) < length ws"
        using "1.IH"(2)[OF g3 i2 True False "1.prems"(1,2,3,4)] "1.prems"(5) by simp
      then show ?thesis
        using g3 i2 True False by (subst collapse_loop.simps) simp
    qed
  next
    case False
    have lt: "g' < g" using "1.prems"(4,6) False by auto
    then have "g' < g - 1 \<or> (g' = g - 1 \<and> (g - 1) * 2 \<le> i')"
      using "1.prems"(3) by (cases "g' = g - 1") auto
    then have "length (collapse_loop ws (g - 1) ((g - 1) * 2)) < length ws"
      using "1.IH"(3)[OF g3 i2 False "1.prems"(1,2,3,4)] by simp
    then show ?thesis
      using g3 i2 False by (subst collapse_loop.simps) simp
  qed
qed

lemma no_repeats_witness:
  assumes "\<not> no_repeats ws"
  obtains g i where "repeated ws g i" "3 \<le> g" "g \<le> 20" "g * 2 \<le> i" "i \<le> length ws"
  using assms unfolding no_repeats_iff by auto

lemma collapse_join_moves:
  assumes "ws \<noteq> []" "list_all clean_word ws" "\<not> no_repeats ws"
  shows "collapseConsecutiveRepeatedNgrams (join_sp ws) \<noteq> join_sp ws"
proof -
  obtain g i where r: "repeated ws g i" "3 \<le> g" "g \<le> 20" "g * 2 \<le> i" "i \<le> length ws"
    using assms(3) by (rule no_repeats_witness)
  let ?g = "min 20 (length ws div 2)"
  let ?ws' = "collapse_loop ws ?g (?g * 2)"
  have long: "\<not> length ws < 6" using r by linarith
  have "g < ?g \<or> (g = ?g \<and> ?g * 2 \<le> i)" using r by (cases "g = ?g") auto
  then have less: "length ?ws' < length ws"
    using r by (intro collapse_loop_shrinks[of ws g i]) simp_all
  have cl': "list_all clean_word ?ws'"
    using assms(2) collapse_loop_set[of ws ?g "?g * 2"] by (auto simp: list_all_iff)
  have ne': "?ws' \<noteq> []" using assms(1) by (rule collapse_loop_not_Nil)
  have eq: "collapseConsecutiveRepeatedNgrams (join_sp ws) = join_sp ?ws'"
    using collapse_join_shape[OF assms(1,2)] long by simp
  show ?thesis
  proof
    assume "collapseConsecutiveRepeatedNgrams (join_sp ws) = join_sp ws"
    then have "join_sp ?ws' = join_sp ws" using eq by simp
    then have "split_sp (join_sp ?ws') = split_sp (join_sp ws)" by simp
    then have "?ws' = ws"
      using split_join[OF ne' cl'] split_join[OF assms(1,2)] by simp
    with less show False by simp
  qed
qed

lemma no_repeats_short: "length ws < 6 \<Longrightarrow> no_repeats ws"
  unfolding no_repeats_iff by auto

lemma collapse_twice_short:
  assumes "length (split_sp (collapseConsecutiveRepeatedNgrams x)) < 6"
  shows "collapseConsecutiveRepeatedNgrams (collapseConsecutiveRepeatedNgrams x) =
         collapseConsecutiveRepeatedNgrams x"
proof (cases "collapseConsecutiveRepeatedNgrams x = []")
  case True
  then show ?thesis by simp
next
  case False
  then obtain ws where ws: "ws \<noteq> []" "list_all clean_word ws"
      "collapseConsecutiveRepeatedNgrams x = join_sp ws"
    using collapse_form[of x] by auto
  have "split_sp (join_sp ws) = ws" using ws(1,2) by (rule split_join)
  then have "no_repeats ws" using assms ws(3) by (simp add: no_repeats_short)
  then show ?thesis
    unfolding ws(3) using ws(1,2) by (intro collapse_join_fixed)
qed

text \<open>
  Claim C5, as amended.  \<open>collapseConsecutiveRepeatedNgrams\<close> applied twice gives the result
  of applying it once exactly for the inputs whose collapsed text has no two adjacent
  identical runs of \<open>g\<close> words for any \<open>3 \<le> g \<le> 20\<close>; in particular for every input whose
  collapsed text has fewer than six words (lemma \<open>collapse_twice_short\<close>).
\<close>

theorem C5_idempotent_iff_no_repeats:
  "collapseConsecutiveRepeatedNgrams (collapseConsecutiveRepeatedNgrams x) =
     collapseConsecutiveRepeatedNgrams x
   \<longleftrightarrow> no_repeats (split_sp (collapseConsecutiveRepeatedNgrams x))"
proof (cases "collapseConsecutiveRepeatedNgrams x = []")
  case True
  have "no_repeats [[]]" by code_simp
  with True show ?thesis by simp
next
  case False
  then obtain ws where ws: "ws \<noteq> []" "list_all clean_word ws"
      "collapseConsecutiveRepeatedNgrams x = join_sp ws"
    using collapse_form[of x] by auto
  have sp: "split_sp (join_sp ws) = ws" using ws(1,2) by (rule split_join)
  show ?thesis
    unfolding ws(3) sp
    using collapse_join_fixed[OF ws(1,2)] collapse_join_moves[OF ws(1,2)] by blast
qed

text \<open>
  The text \<open>"a b c a b c d e f"\<close> collapses to \<open>"a b c d e f"\<close>, which has no repeat, and a
  second application leaves it unchanged.
\<close>

theorem C5_witness:
  "no_repeats (split_sp (collapseConsecutiveRepeatedNgrams ''a b c a b c d e f'')) \<and>
   collapseConsecutiveRepeatedNgrams (collapseConsecutiveRepeatedNgrams ''a b c a b c d e f'') =
     collapseConsecutiveRepeatedNgrams ''a b c a b c d e f'' \<and>
   collapseConsecutiveRepeatedNgrams ''a b c a b c d e f'' = ''a b c d e f''"
proof -
  have h: "no_repeats (split_sp (collapseConsecutiveRepeatedNgrams ''a b c a b c d e f''))"
    by code_simp
  have v: "collapseConsecutiveRepeatedNgrams ''a b c a b c d e f'' = ''a b c d e f''"
    by code_simp
  from C5_idempotent_iff_no_repeats[of "''a b c a b c d e f''"] h
  have "collapseConsecutiveRepeatedNgrams (collapseConsecutiveRepeatedNgrams ''a b c a b c d e f'') =
     collapseConsecutiveRepeatedNgrams ''a b c a b c d e f''"
    by (rule iffD2)
  with h v show ?thesis by (intro conjI)
qed

text \<open>
  The claim as stated fails.  The only repeat of \<open>"a b c d a c d a b c d"\<close> is the
  3-gram \<open>c d a\<close>; it is found after the gram sizes 5 and 4 have been scanned, and removing
  it leaves \<open>"a b c d a b c d"\<close>, whose 4-gram repeat only a second application removes.
\<close>

theorem C5_counterexample:
  "collapseConsecutiveRepeatedNgrams
     (collapseConsecutiveRepeatedNgrams ''a b c d a c d a b c d'')
   \<noteq> collapseConsecutiveRepeatedNgrams ''a b c d a c d a b c d''"
  by code_simp

subsection \<open>Short inputs\<close>

text \<open>
  Claim C7, as amended.  \<open>collapseConsecutiveRepeatedNgrams\<close> applied to
  \<open>"the cat the cat sat"\<close> returns the input unchanged: it has five words, fewer than the six
  the function requires before it looks for repeats, and the smallest gram size it ever
  collapses is three.
\<close>

theorem C7_cat_unchanged:
  "collapseConsecutiveRepeatedNgrams ''the cat the cat sat'' = ''the cat the cat sat''"
  by code_simp

text \<open>The claim as stated fails: the result is not \<open>"the cat sat"\<close>.\<close>

theorem C7_counterexample:
  "collapseConsecutiveRepeatedNgrams ''the cat the cat sat'' \<noteq> ''the cat sat''"
  by code_simp

section \<open>The merge of segments\<close>

subsection \<open>Order and time spans\<close>

lemma dedupe_step_cases:
  "dedupe_step ds x = ds \<or> dedupe_step ds x = ds @ [mk_next x] \<or>
   (ds \<noteq> [] \<and> dedupe_step ds x = butlast ds @ [merge_into (last ds) (mk_next x)])"
  by (auto simp: dedupe_step_def Let_def)

lemma mk_next_fields [simp]:
  "seg_start (mk_next x) = seg_start x"
  "seg_end (mk_next x) = max (seg_end x) (seg_start x)"
  "seg_text (mk_next x) = collapseConsecutiveRepeatedNgrams (seg_text x)"
  by (simp_all add: mk_next_def)

lemma merge_into_fields [simp]:
  "seg_start (merge_into p n) = seg_start p"
  "seg_end (merge_into p n) = max (seg_end p) (seg_end n)"
  by (simp_all add: merge_into_def)

lemma map_start_merge:
  "ds \<noteq> [] \<Longrightarrow> map seg_start (butlast ds @ [merge_into (last ds) n]) = map seg_start ds"
  by (induction ds rule: rev_induct) auto

lemma well_timed_step:
  assumes "well_timed ds" "\<forall>y \<in> set ds. seg_start y \<le> seg_start x"
  shows "well_timed (dedupe_step ds x) \<and> set (map seg_start (dedupe_step ds x)) \<subseteq> insert (seg_start x) (set (map seg_start ds))"
proof -
  consider "dedupe_step ds x = ds" | "dedupe_step ds x = ds @ [mk_next x]"
    | "ds \<noteq> []" "dedupe_step ds x = butlast ds @ [merge_into (last ds) (mk_next x)]"
    using dedupe_step_cases by blast
  then show ?thesis
  proof cases
    case 1
    with assms show ?thesis by auto
  next
    case 2
    with assms show ?thesis by (auto simp: well_timed_def sorted_append)
  next
    case 3
    have m: "map seg_start (dedupe_step ds x) = map seg_start ds"
      unfolding 3(2) by (rule map_start_merge[OF 3(1)])
    have "\<forall>y \<in> set (butlast ds). seg_start y \<le> seg_end y"
      using assms(1) by (auto simp: well_timed_def dest: in_set_butlastD)
    moreover have "seg_start (last ds) \<le> seg_end (last ds)"
      using assms(1) 3(1) by (auto simp: well_timed_def)
    ultimately have "\<forall>y \<in> set (dedupe_step ds x). seg_start y \<le> seg_end y"
      using 3(2) by auto
    with m assms(1) show ?thesis
      unfolding well_timed_def by (metis set_map subset_insertI)
  qed
qed

lemma well_timed_foldl:
  "sorted (map seg_start xs) \<Longrightarrow> well_timed ds \<Longrightarrow>
   (\<forall>y \<in> set ds. \<forall>x \<in> set xs. seg_start y \<le> seg_start x) \<Longrightarrow>
   well_timed (foldl dedupe_step ds xs)"
proof (induction xs arbitrary: ds)
  case Nil
  then show ?case by simp
next
  case (Cons x xs)
  have st: "well_timed (dedupe_step ds x)"
    and sub: "set (map seg_start (dedupe_step ds x)) \<subseteq> insert (seg_start x) (set (map seg_start ds))"
    using well_timed_step[of ds x] Cons.prems by auto
  have "\<forall>y \<in> set (dedupe_step ds x). \<forall>z \<in> set xs. seg_start y \<le> seg_start z"
  proof (intro ballI)
    fix y z assume y: "y \<in> set (dedupe_step ds x)" and z: "z \<in> set xs"
    from y sub have "seg_start y = seg_start x \<or> seg_start y \<in> seg_start ` set ds" by auto
    then show "seg_start y \<le> seg_start z"
      using Cons.prems z by auto
  qed
  moreover have "sorted (map seg_start xs)" using Cons.prems(1) by simp
  ultimately show ?case using Cons.IH st by simp
qed

lemma sorted_starts_sort_segments: "sorted (map seg_start (sort_segments s))"
proof -
  have "sorted (map (\<lambda>s. (seg_start s, seg_end s)) (sort_segments s))"
    by (simp add: sort_segments_def)
  then have "sorted_wrt (\<lambda>a b. (seg_start a, seg_end a) \<le> (seg_start b, seg_end b)) (sort_segments s)"
    by (simp add: sorted_map)
  then have "sorted_wrt (\<lambda>a b. seg_start a \<le> seg_start b) (sort_segments s)"
    by (rule sorted_wrt_mono_rel[rotated]) (auto simp: less_eq_prod_def)
  then show ?thesis by (simp add: sorted_map)
qed

text \<open>
  Claim C9.  For every input list, the starts of the output of \<open>dedupeSegments\<close> are in
  non-decreasing order, and every output segment ends no earlier than it starts, whatever
  the ends of the input segments are.
\<close>

theorem C9_sorted_and_end_after_start:
  "sorted (map seg_start (dedupeSegments s)) \<and>
   (\<forall>y \<in> set (dedupeSegments s). seg_start y \<le> seg_end y)"
  using well_timed_foldl[of "sort_segments s" "[]"] sorted_starts_sort_segments[of s]
  by (simp add: dedupeSegments_def well_timed_def)

text \<open>An input out of order, with both ends before their starts.\<close>

theorem C9_witness:
  "sorted (map seg_start (dedupeSegments
      [\<lparr>seg_text = ''b'', seg_start = 5, seg_end = 1\<rparr>,
       \<lparr>seg_text = ''a'', seg_start = 3, seg_end = 2\<rparr>])) \<and>
   list_all (\<lambda>y. seg_start y \<le> seg_end y) (dedupeSegments
      [\<lparr>seg_text = ''b'', seg_start = 5, seg_end = 1\<rparr>,
       \<lparr>seg_text = ''a'', seg_start = 3, seg_end = 2\<rparr>]) \<and>
   dedupeSegments
      [\<lparr>seg_text = ''b'', seg_start = 5, seg_end = 1\<rparr>,
       \<lparr>seg_text = ''a'', seg_start = 3, seg_end = 2\<rparr>] =
      [\<lparr>seg_text = ''a'', seg_start = 3, seg_end = 3\<rparr>,
       \<lparr>seg_text = ''b'', seg_start = 5, seg_end = 5\<rparr>]"
proof -
  have v: "dedupeSegments
      [\<lparr>seg_text = ''b'', seg_start = 5, seg_end = 1\<rparr>,
       \<lparr>seg_text = ''a'', seg_start = 3, seg_end = 2\<rparr>] =
      [\<lparr>seg_text = ''a'', seg_start = 3, seg_end = 3\<rparr>,
       \<lparr>seg_text = ''b'', seg_start = 5, seg_end = 5\<rparr>]"
    by code_simp
  note c = C9_sorted_and_end_after_start[of "[\<lparr>seg_text = ''b'', seg_start = 5, seg_end = 1\<rparr>,
       \<lparr>seg_text = ''a'', seg_start = 3, seg_end = 2\<rparr>]"]
  from c have a: "sorted (map seg_start (dedupeSegments
      [\<lparr>seg_text = ''b'', seg_start = 5, seg_end = 1\<rparr>,
       \<lparr>seg_text = ''a'', seg_start = 3, seg_end = 2\<rparr>]))" by (rule conjunct1)
  from c have b: "list_all (\<lambda>y. seg_start y \<le> seg_end y) (dedupeSegments
      [\<lparr>seg_text = ''b'', seg_start = 5, seg_end = 1\<rparr>,
       \<lparr>seg_text = ''a'', seg_start = 3, seg_end = 2\<rparr>])"
    unfolding list_all_iff by (rule conjunct2)
  from a b v show ?thesis by (intro conjI)
qed

subsection \<open>Dropped segments\<close>

lemma dedupe_step_dropped:
  "collapseConsecutiveRepeatedNgrams (seg_text x) = [] \<Longrightarrow> dedupe_step ds x = ds"
  by (simp add: dedupe_step_def)

lemma foldl_dedupe_filter:
  "foldl dedupe_step ds (filter (\<lambda>x. collapseConsecutiveRepeatedNgrams (seg_text x) \<noteq> []) xs) =
   foldl dedupe_step ds xs"
  by (induction xs arbitrary: ds) (simp_all add: dedupe_step_dropped)

lemma sort_segments_filter: "sort_segments (filter P s) = filter P (sort_segments s)"
  by (simp add: sort_segments_def filter_sort)

lemma merge_into_text:
  "seg_text (merge_into p n) = seg_text p \<or> seg_text (merge_into p n) = seg_text n"
  by (simp add: merge_into_def)

lemma dedupe_step_cases_text:
  "(collapseConsecutiveRepeatedNgrams (seg_text x) = [] \<and> dedupe_step ds x = ds) \<or>
   (collapseConsecutiveRepeatedNgrams (seg_text x) \<noteq> [] \<and> dedupe_step ds x = ds @ [mk_next x]) \<or>
   (collapseConsecutiveRepeatedNgrams (seg_text x) \<noteq> [] \<and> ds \<noteq> [] \<and>
    dedupe_step ds x = butlast ds @ [merge_into (last ds) (mk_next x)])"
  by (cases "collapseConsecutiveRepeatedNgrams (seg_text x) = []"; cases "ds = []";
      cases "sameOrContained (last ds) (mk_next x) \<and> overlaps (last ds) (mk_next x)")
     (simp_all add: dedupe_step_def Let_def)

lemma kept_text_step:
  assumes "list_all kept_text ds"
  shows "list_all kept_text (dedupe_step ds x)"
proof -
  consider "dedupe_step ds x = ds"
    | "collapseConsecutiveRepeatedNgrams (seg_text x) \<noteq> []" "dedupe_step ds x = ds @ [mk_next x]"
    | "collapseConsecutiveRepeatedNgrams (seg_text x) \<noteq> []" "ds \<noteq> []"
      "dedupe_step ds x = butlast ds @ [merge_into (last ds) (mk_next x)]"
    using dedupe_step_cases_text[of x ds] by blast
  then show ?thesis
  proof cases
    case 1
    with assms show ?thesis by simp
  next
    case 2
    with assms show ?thesis by (simp add: kept_text_def collapse_collapse_not_Nil)
  next
    case 3
    have "kept_text (last ds)" using assms 3(2) by (simp add: list_all_iff)
    moreover have "kept_text (mk_next x)" using 3(1) by (simp add: kept_text_def collapse_collapse_not_Nil)
    ultimately have "kept_text (merge_into (last ds) (mk_next x))"
      using merge_into_text[of "last ds" "mk_next x"] by (auto simp: kept_text_def)
    moreover have "list_all kept_text (butlast ds)"
      using assms by (auto simp: list_all_iff dest: in_set_butlastD)
    ultimately show ?thesis using 3(3) by simp
  qed
qed

lemma kept_text_foldl: "list_all kept_text ds \<Longrightarrow> list_all kept_text (foldl dedupe_step ds xs)"
  by (induction xs arbitrary: ds) (simp_all add: kept_text_step)

text \<open>
  Claim C10.  A segment whose cleaned text (whitespace normalised, repeats collapsed) is
  empty is dropped by \<open>dedupeSegments\<close>, whatever its timestamps: removing all such segments
  from the input does not change the output, and no segment of the output has a text that
  cleans to the empty string.
\<close>

theorem C10_empty_text_dropped:
  "dedupeSegments (filter (\<lambda>x. collapseConsecutiveRepeatedNgrams (seg_text x) \<noteq> []) s) =
     dedupeSegments s \<and>
   (\<forall>y \<in> set (dedupeSegments s). collapseConsecutiveRepeatedNgrams (seg_text y) \<noteq> [])"
  using kept_text_foldl[of "[]" "sort_segments s"]
  by (simp add: dedupeSegments_def sort_segments_filter foldl_dedupe_filter list_all_iff kept_text_def)

text \<open>A whitespace-only segment, sorted last by its start, leaves no trace.\<close>

theorem C10_witness:
  "collapseConsecutiveRepeatedNgrams ''  '' = [] \<and>
   dedupeSegments
     [\<lparr>seg_text = ''  '', seg_start = 7, seg_end = 8\<rparr>,
      \<lparr>seg_text = ''one two'', seg_start = 1, seg_end = 2\<rparr>] =
     [\<lparr>seg_text = ''one two'', seg_start = 1, seg_end = 2\<rparr>] \<and>
   dedupeSegments
     (filter (\<lambda>x. collapseConsecutiveRepeatedNgrams (seg_text x) \<noteq> [])
        [\<lparr>seg_text = ''  '', seg_start = 7, seg_end = 8\<rparr>,
         \<lparr>seg_text = ''one two'', seg_start = 1, seg_end = 2\<rparr>]) =
   dedupeSegments
     [\<lparr>seg_text = ''  '', seg_start = 7, seg_end = 8\<rparr>,
      \<lparr>seg_text = ''one two'', seg_start = 1, seg_end = 2\<rparr>] \<and>
   list_all (\<lambda>y. collapseConsecutiveRepeatedNgrams (seg_text y) \<noteq> [])
     (dedupeSegments
        [\<lparr>seg_text = ''  '', seg_start = 7, seg_end = 8\<rparr>,
         \<lparr>seg_text = ''one two'', seg_start = 1, seg_end = 2\<rparr>])"
proof -
  have e: "collapseConsecutiveRepeatedNgrams ''  '' = []" by code_simp
  have v: "dedupeSegments
     [\<lparr>seg_text = ''  '', seg_start = 7, seg_end = 8\<rparr>,
      \<lparr>seg_text = ''one two'', seg_start = 1, seg_end = 2\<rparr>] =
     [\<lparr>seg_text = ''one two'', seg_start = 1, seg_end = 2\<rparr>]" by code_simp
  note c = C10_empty_text_dropped[of "[\<lparr>seg_text = ''  '', seg_start = 7, seg_end = 8\<rparr>,
      \<lparr>seg_text = ''one two'', seg_start = 1, seg_end = 2\<rparr>]"]
  from c have a: "dedupeSegments
     (filter (\<lambda>x. collapseConsecutiveRepeatedNgrams (seg_text x) \<noteq> [])
        [\<lparr>seg_text = ''  '', seg_start = 7, seg_end = 8\<rparr>,
         \<lparr>seg_text = ''one two'', seg_start = 1, seg_end = 2\<rparr>]) =
   dedupeSegments
     [\<lparr>seg_text = ''  '', seg_start = 7, seg_end = 8\<rparr>,
      \<lparr>seg_text = ''one two'', seg_start = 1, seg_end = 2\<rparr>]" by (rule conjunct1)
  from c have b: "list_all (\<lambda>y. collapseConsecutiveRepeatedNgrams (seg_text y) \<noteq> [])
     (dedupeSegments
        [\<lparr>seg_text = ''  '', seg_start = 7, seg_end = 8\<rparr>,
         \<lparr>seg_text = ''one two'', seg_start = 1, seg_end = 2\<rparr>])"
    unfolding list_all_iff by (rule conjunct2)
  from e v a b show ?thesis by (intro conjI)
qed

subsection \<open>The merge step\<close>




subsection \<open>Lists the merge leaves unchanged\<close>














section \<open>The windows of a waveform\<close>

lemma ceil_div_nat:
  assumes "0 < b"
  shows "nat \<lceil>real a / real b\<rceil> = (a + b - 1) div b"
proof -
  define q where "q = (a + b - 1) div b"
  have n1: "q * b \<le> a + b - 1" unfolding q_def by simp
  have n2: "a + b - 1 < q * b + b"
    unfolding q_def using assms dividend_less_div_times[of b "a + b - 1"] by (simp add: ac_simps)
  have "a \<le> q * b" using n2 assms by linarith
  then have "real a \<le> real (q * b)" by (rule iffD2[OF of_nat_le_iff])
  then have up: "real a / real b \<le> of_int (int q)"
    using assms by (simp add: pos_divide_le_eq)
  have "q * b < a + b" using n1 assms by linarith
  then have "real (q * b) < real (a + b)" by (rule iffD2[OF of_nat_less_iff])
  then have "(real q - 1) * real b < real a" by (simp add: algebra_simps)
  then have lo: "of_int (int q) - 1 < real a / real b"
    using assms by (simp add: pos_less_divide_eq)
  have "\<lceil>real a / real b\<rceil> = int q" using lo up by (rule ceiling_unique)
  then show ?thesis by (simp add: q_def)
qed

lemma count_step:
  assumes "0 < J" "0 < d"
  shows "(d + J - 1) div J = Suc ((d - J + J - 1) div J)"
proof (cases "J \<le> d")
  case True
  have "d + J - 1 = (d - 1) + J" using assms by simp
  then have "(d + J - 1) div J = ((d - 1) + J) div J" by (rule arg_cong)
  also have "\<dots> = (d - 1) div J + 1" using assms by (intro div_add_self2) simp
  also have "\<dots> = Suc ((d - 1) div J)" by simp
  also have "d - 1 = d - J + J - 1" using True by simp
  finally show ?thesis .
next
  case False
  have "d + J - 1 = (d - 1) + J" using assms by simp
  then have "(d + J - 1) div J = ((d - 1) + J) div J" by (rule arg_cong)
  also have "\<dots> = (d - 1) div J + 1" using assms by (intro div_add_self2) simp
  also have "\<dots> = Suc ((d - 1) div J)" by simp
  also have "(d - 1) div J = 0" using False assms by simp
  finally have l: "(d + J - 1) div J = Suc 0" .
  have "d - J + J - 1 = J - 1" using False by simp
  then have "(d - J + J - 1) div J = (J - 1) div J" by (rule arg_cong)
  also have "\<dots> = 0" using assms by simp
  finally show ?thesis using l by simp
qed

lemmas window_consts = WINDOW_SAMPLES_def JUMP_SAMPLES_def CHUNK_JUMP_SAMPLES_def
  CHUNK_LENGTH_S_def STRIDE_LENGTH_S_def SAMPLE_RATE_def MIN_WINDOW_SAMPLES_def

lemma JUMP_pos: "0 < JUMP_SAMPLES"
  by (simp add: window_consts)

lemma JUMP_less_WINDOW: "JUMP_SAMPLES < WINDOW_SAMPLES"
  by (simp add: window_consts)

lemma map_upt_Suc_shift: "map f [0..<Suc n] = f 0 # map (\<lambda>k. f (Suc k)) [0..<n]"
  by (simp only: map_upt_Suc) 

lemma windows_loop_closed:
  "offset < length audio \<Longrightarrow>
   windows_loop audio offset =
     map (\<lambda>k. window_at audio (offset + k * JUMP_SAMPLES))
       [0..<Suc ((length audio - (offset + WINDOW_SAMPLES) + JUMP_SAMPLES - 1) div JUMP_SAMPLES)]"
proof (induction audio offset rule: windows_loop.induct)
  case (1 audio offset)
  show ?case
  proof (cases "length audio \<le> offset + WINDOW_SAMPLES")
    case True
    then have "length audio - (offset + WINDOW_SAMPLES) = 0" by simp
    then have "(length audio - (offset + WINDOW_SAMPLES) + JUMP_SAMPLES - 1) div JUMP_SAMPLES = 0"
      using JUMP_pos by simp
    moreover have "windows_loop audio offset = [window_at audio offset]"
      using True 1(2) by (subst windows_loop.simps) simp
    ultimately show ?thesis by simp
  next
    case False
    let ?d = "length audio - (offset + WINDOW_SAMPLES)"
    have d: "0 < ?d" using False by simp
    have lt: "offset + JUMP_SAMPLES < length audio" using False JUMP_less_WINDOW by linarith
    have unf: "windows_loop audio offset = window_at audio offset # windows_loop audio (offset + JUMP_SAMPLES)"
      using False 1(2) by (subst windows_loop.simps) simp
    have ih: "windows_loop audio (offset + JUMP_SAMPLES) =
      map (\<lambda>k. window_at audio (offset + JUMP_SAMPLES + k * JUMP_SAMPLES))
        [0..<Suc ((length audio - (offset + JUMP_SAMPLES + WINDOW_SAMPLES) + JUMP_SAMPLES - 1) div JUMP_SAMPLES)]"
      using 1(1)[OF 1(2) _ lt] False by simp
    have "length audio - (offset + JUMP_SAMPLES + WINDOW_SAMPLES) = ?d - JUMP_SAMPLES" by simp
    then have cnt: "(?d + JUMP_SAMPLES - 1) div JUMP_SAMPLES =
        Suc ((length audio - (offset + JUMP_SAMPLES + WINDOW_SAMPLES) + JUMP_SAMPLES - 1) div JUMP_SAMPLES)"
      using count_step[OF JUMP_pos d] by simp
    show ?thesis
      unfolding unf ih cnt map_upt_Suc_shift[of _ "Suc _"]
      by (simp add: ac_simps)
  qed
qed

lemma estimateChunkCount_eq:
  "estimateChunkCount n = Suc ((n - WINDOW_SAMPLES + JUMP_SAMPLES - 1) div JUMP_SAMPLES)"
proof (cases "n \<le> WINDOW_SAMPLES")
  case True
  then have "n - WINDOW_SAMPLES = 0" by simp
  then have "(n - WINDOW_SAMPLES + JUMP_SAMPLES - 1) div JUMP_SAMPLES = 0" using JUMP_pos by simp
  moreover have "estimateChunkCount n = 1"
    using True by (simp add: estimateChunkCount_def WINDOW_SAMPLES_def)
  ultimately show ?thesis by simp
next
  case False
  have j: "0 < CHUNK_JUMP_SAMPLES" using JUMP_pos by (simp add: JUMP_SAMPLES_def)
  have "estimateChunkCount n = nat \<lceil>real (n - WINDOW_SAMPLES) / real CHUNK_JUMP_SAMPLES\<rceil> + 1"
    using False j by (simp add: estimateChunkCount_def WINDOW_SAMPLES_def Let_def)
  then show ?thesis
    using ceil_div_nat[OF j, of "n - WINDOW_SAMPLES"] by (simp add: JUMP_SAMPLES_def)
qed

lemma buildWindows_nonempty_audio:
  assumes "audio \<noteq> []"
  shows "buildWindows audio =
     map (\<lambda>k. window_at audio (k * JUMP_SAMPLES)) [0..<estimateChunkCount (length audio)]"
proof -
  have "windows_loop audio 0 =
     map (\<lambda>k. window_at audio (k * JUMP_SAMPLES)) [0..<estimateChunkCount (length audio)]"
    using windows_loop_closed[of 0 audio] assms by (simp add: estimateChunkCount_eq)
  moreover have "estimateChunkCount (length audio) \<noteq> 0" by (simp add: estimateChunkCount_eq)
  ultimately show ?thesis by (simp add: buildWindows_def Let_def)
qed

lemma buildWindows_count:
  "audio \<noteq> [] \<Longrightarrow> length (buildWindows audio) = estimateChunkCount (length audio)"
  by (simp add: buildWindows_nonempty_audio)

lemma buildWindows_offset:
  "audio \<noteq> [] \<Longrightarrow> k < estimateChunkCount (length audio) \<Longrightarrow>
   offsetS (buildWindows audio ! k) = real (k * JUMP_SAMPLES) / real SAMPLE_RATE"
  by (simp add: buildWindows_nonempty_audio window_at_def Let_def)

lemma buildWindows_65s:
  assumes "length audio = 65 * SAMPLE_RATE"
  shows "map offsetS (buildWindows audio) = [0, 20, 40] \<and>
         data (last (buildWindows audio)) = drop (40 * SAMPLE_RATE) audio"
proof -
  have ne: "audio \<noteq> []" using assms by (auto simp: SAMPLE_RATE_def)
  have n: "estimateChunkCount (length audio) = 3"
    unfolding assms estimateChunkCount_eq by (simp add: window_consts)
  have upt: "[0..<3] = [0, 1, 2]" by (simp add: upt_rec)
  show ?thesis
    unfolding buildWindows_nonempty_audio[OF ne] n upt
    using assms
    by (simp add: window_at_def Let_def window_consts slice_def padToMinLength_def)
qed

lemma buildWindows_nonempty:
  assumes "audio \<noteq> []"
  shows "buildWindows audio \<noteq> [] \<and> offsetS (hd (buildWindows audio)) = 0 \<and>
         list_all (\<lambda>w. MIN_WINDOW_SAMPLES \<le> length (data w)) (buildWindows audio)"
proof -
  have n: "estimateChunkCount (length audio) = Suc (estimateChunkCount (length audio) - 1)"
    by (simp add: estimateChunkCount_eq)
  have "list_all (\<lambda>w. MIN_WINDOW_SAMPLES \<le> length (data w)) (buildWindows audio)"
    unfolding buildWindows_nonempty_audio[OF assms]
    by (simp add: list_all_iff window_at_def Let_def padToMinLength_def)
  moreover have "buildWindows audio \<noteq> [] \<and> offsetS (hd (buildWindows audio)) = 0"
    unfolding buildWindows_nonempty_audio[OF assms]
    by (subst (1 2) n, subst (1 2) map_upt_Suc_shift) (simp add: window_at_def Let_def)
  ultimately show ?thesis by simp
qed

lemma buildWindows_short_clip:
  assumes "length audio = 6400"
  shows "buildWindows audio = [\<lparr>data = audio @ replicate 9600 0, offsetS = 0\<rparr>]"
proof -
  have ne: "audio \<noteq> []" using assms by auto
  have n: "estimateChunkCount (length audio) = 1"
    unfolding assms estimateChunkCount_eq by (simp add: window_consts)
  show ?thesis
    unfolding buildWindows_nonempty_audio[OF ne] n
    using assms
    by (simp add: window_at_def Let_def window_consts slice_def padToMinLength_def)
qed

text \<open>
  Claim C1.  For every non-empty waveform the loop builds \<open>estimateChunkCount\<close> many windows,
  window \<open>k\<close> at sample \<open>k * JUMP_SAMPLES\<close> (lemmas \<open>buildWindows_count\<close>,
  \<open>buildWindows_offset\<close>), and a 65 s clip gives three windows at 0 s, 20 s and 40 s, the
  last holding the samples from 40 s on (\<open>buildWindows_65s\<close>).  On the empty waveform the
  count is wrong: the formula and \<open>estimateChunkCount\<close> give one window, the loop builds none.
\<close>

theorem C1_empty_audio_count:
  "length (buildWindows []) = 0 \<and> estimateChunkCount (length ([] :: real list)) = 1"
  by (simp add: buildWindows_def windows_loop.simps estimateChunkCount_def)

text \<open>
  Claim C8.  On the zero-length waveform the loop is not entered, and the statement after
  it, commented as the safety net for empty audio, requires \<open>audio.length > 0\<close>: no window is
  built.  Every non-empty waveform gives a non-empty list of windows, the first at offset 0
  and each of at least the minimum length (lemma \<open>buildWindows_nonempty\<close>); a clip of 0.4 s
  gives one window, padded with zeros to 1 s (lemma \<open>buildWindows_short_clip\<close>).
\<close>

theorem C8_empty_audio_no_window: "buildWindows [] = []"
  by (simp add: buildWindows_def windows_loop.simps)

section \<open>The per-window loop of the worker\<close>

lemma collect_chunks_append:
  "collect_chunks off acc cs = acc @ collect_chunks off [] cs"
proof (induction cs arbitrary: acc)
  case Nil
  then show ?case by simp
next
  case (Cons c cs)
  show ?case
    using Cons.IH[of acc] Cons.IH[of "acc @ [_]"] Cons.IH[of "[_]"]
    by (simp add: Let_def)
qed

lemma progress_counts_append:
  "progress_counts (xs @ ys) = progress_counts xs @ progress_counts ys"
  by (induction xs rule: progress_counts.induct) simp_all

lemma progress_counts_event [simp]:
  "progress_counts [progress_event r p n] = [(Some p, Some n)]"
  by (simp add: progress_event_def)

lemma process_window_throw:
  "transcriber i (data win) = Inl e \<Longrightarrow>
   process_window transcriber requestId n st i win =
     st\<lparr>posted := posted st @ [progress_event requestId (i + 1) n]\<rparr>"
  by (simp add: process_window_def window_try_def)

lemma process_window_allSegments:
  "allSegments (process_window transcriber requestId n st i (windows ! i)) =
   allSegments st @ window_segments transcriber windows i"
  using collect_chunks_append[of _ "allSegments st"]
  by (cases "transcriber i (data (windows ! i))")
     (simp_all add: process_window_def window_try_def window_segments_def Let_def)

lemma process_window_accumulatedTexts:
  "accumulatedTexts (process_window transcriber requestId n st i (windows ! i)) =
   accumulatedTexts st @ window_texts transcriber windows i"
  by (cases "transcriber i (data (windows ! i))")
     (simp_all add: process_window_def window_try_def window_texts_def Let_def)

lemma process_window_progress:
  "progress_counts (posted (process_window transcriber requestId n st i win)) =
   progress_counts (posted st) @ [(Some (i + 1), Some n)]"
  by (cases "transcriber i (data win)")
     (simp_all add: process_window_def window_try_def Let_def progress_counts_append)

lemma upt_front: "i < n \<Longrightarrow> [i..<n] = i # [Suc i..<n]"
  by (rule upt_conv_Cons)

lemma windows_for_result:
  "allSegments (windows_for transcriber requestId windows st i) =
     allSegments st @ concat (map (window_segments transcriber windows) [i..<length windows]) \<and>
   accumulatedTexts (windows_for transcriber requestId windows st i) =
     accumulatedTexts st @ concat (map (window_texts transcriber windows) [i..<length windows]) \<and>
   progress_counts (posted (windows_for transcriber requestId windows st i)) =
     progress_counts (posted st) @ map (\<lambda>j. (Some (j + 1), Some (length windows))) [i..<length windows]"
proof (induction transcriber requestId windows st i rule: windows_for.induct)
  case (1 transcriber requestId windows st i)
  show ?case
  proof (cases "i < length windows")
    case True
    then show ?thesis
      using 1
      by (subst (1 2 3) windows_for.simps)
         (simp add: upt_front process_window_allSegments process_window_accumulatedTexts
            process_window_progress)
  next
    case False
    then show ?thesis by (subst (1 2 3) windows_for.simps) simp
  qed
qed

lemma process_window_posted:
  "list_all P (posted st) \<Longrightarrow> (\<And>t. P (Partial t requestId)) \<Longrightarrow>
   P (progress_event requestId (i + 1) n) \<Longrightarrow>
   list_all P (posted (process_window transcriber requestId n st i win))"
  by (cases "transcriber i (data win)")
     (simp_all add: process_window_def window_try_def Let_def)

lemma windows_for_posted:
  "list_all P (posted st) \<Longrightarrow> (\<And>t. P (Partial t requestId)) \<Longrightarrow>
   (\<And>p n. P (progress_event requestId p n)) \<Longrightarrow>
   list_all P (posted (windows_for transcriber requestId windows st i))"
proof (induction transcriber requestId windows st i rule: windows_for.induct)
  case (1 transcriber requestId windows st i)
  show ?case
  proof (cases "i < length windows")
    case True
    have "list_all P (posted (process_window transcriber requestId (length windows) st i (windows ! i)))"
      using 1(2,3,4) by (intro process_window_posted) auto
    then show ?thesis
      using True 1(1)[OF True _ 1(3,4)] by (subst windows_for.simps) simp
  next
    case False
    with 1(2) show ?thesis by (subst windows_for.simps) simp
  qed
qed

lemma transcribe_no_failure: "list_all (\<lambda>m. \<not> is_failure m) (transcribe transcriber dev requestId audio)"
  unfolding transcribe_def Let_def
  by (simp, intro windows_for_posted) (simp_all add: progress_event_def)

lemma transcribe_last:
  "last (transcribe transcriber dev requestId audio) =
   Status \<lparr>s_status = W_ready, s_requestId = Some requestId, s_detail = None, s_device = None\<rparr>"
  by (simp add: transcribe_def Let_def)

lemma transcribe_tagged: "list_all (tagged requestId) (transcribe transcriber dev requestId audio)"
  unfolding transcribe_def Let_def
  by (simp, intro windows_for_posted) (simp_all add: progress_event_def)

lemma transcribe_handler_tagged: "list_all (tagged requestId) (transcribe_handler got requestId audio)"
  by (cases got) (auto simp: transcribe_handler_def transcribe_tagged)

text \<open>
  Claim C3.  If the backend call for window \<open>i\<close> of \<open>N\<close> throws, the iteration leaves the
  accumulated texts and segments as they were and posts exactly the progress message with
  \<open>processed = i + 1\<close> and \<open>total = N\<close>.  Whatever windows fail, the loop runs over all \<open>N\<close>
  windows: its accumulators hold the contributions of the windows in order (none for a
  window that threw) and it has posted the progress messages \<open>1 .. N\<close>; the job posts no
  failure message and ends with the status \<open>ready\<close>.
\<close>

theorem C3_failed_window_skipped:
  assumes "i < length windows" and "transcriber i (data (windows ! i)) = Inl e"
  shows "process_window transcriber requestId (length windows) st i (windows ! i) =
           st\<lparr>posted := posted st @ [progress_event requestId (i + 1) (length windows)]\<rparr> \<and>
         window_segments transcriber windows i = [] \<and>
         window_texts transcriber windows i = [] \<and>
         allSegments (windows_for transcriber requestId windows
             \<lparr>accumulatedTexts = [], allSegments = [], posted = []\<rparr> 0) =
           concat (map (window_segments transcriber windows) [0..<length windows]) \<and>
         accumulatedTexts (windows_for transcriber requestId windows
             \<lparr>accumulatedTexts = [], allSegments = [], posted = []\<rparr> 0) =
           concat (map (window_texts transcriber windows) [0..<length windows]) \<and>
         progress_counts (posted (windows_for transcriber requestId windows
             \<lparr>accumulatedTexts = [], allSegments = [], posted = []\<rparr> 0)) =
           map (\<lambda>j. (Some (j + 1), Some (length windows))) [0..<length windows] \<and>
         list_all (\<lambda>m. \<not> is_failure m) (transcribe transcriber dev requestId audio) \<and>
         last (transcribe transcriber dev requestId audio) =
           Status \<lparr>s_status = W_ready, s_requestId = Some requestId, s_detail = None,
                   s_device = None\<rparr>"
  using assms windows_for_result[of transcriber requestId windows
           "\<lparr>accumulatedTexts = [], allSegments = [], posted = []\<rparr>" 0]
  by (simp add: process_window_throw window_segments_def window_texts_def
        transcribe_no_failure transcribe_last)

text \<open>Three windows, the backend throwing on the second.\<close>

theorem C3_witness:
  "(1 < length [\<lparr>data = [], offsetS = 0\<rparr>, \<lparr>data = [], offsetS = 20\<rparr>, \<lparr>data = [], offsetS = 40\<rparr>] \<and>
    (\<lambda>(i::nat) (d::real list). if i = 1 then Inl ''no tokens''
            else Inr \<lparr>o_text = Some ''hi'',
                      o_chunks = Some [\<lparr>c_text = Some ''hi'', c_timestamp = Some (Some 1, Some 2)\<rparr>]\<rparr>)
      1 (data ([\<lparr>data = [], offsetS = 0\<rparr>, \<lparr>data = [], offsetS = 20\<rparr>, \<lparr>data = [], offsetS = 40\<rparr>] ! 1))
      = Inl ''no tokens'') \<and>
   process_window
     (\<lambda>i d. if i = 1 then Inl ''no tokens''
            else Inr \<lparr>o_text = Some ''hi'',
                      o_chunks = Some [\<lparr>c_text = Some ''hi'', c_timestamp = Some (Some 1, Some 2)\<rparr>]\<rparr>)
     7 3 \<lparr>accumulatedTexts = [''hi''], allSegments = [], posted = []\<rparr> 1 \<lparr>data = [], offsetS = 20\<rparr> =
     \<lparr>accumulatedTexts = [''hi''], allSegments = [], posted = [progress_event 7 2 3]\<rparr> \<and>
   allSegments (windows_for
     (\<lambda>i d. if i = 1 then Inl ''no tokens''
            else Inr \<lparr>o_text = Some ''hi'',
                      o_chunks = Some [\<lparr>c_text = Some ''hi'', c_timestamp = Some (Some 1, Some 2)\<rparr>]\<rparr>)
     7 [\<lparr>data = [], offsetS = 0\<rparr>, \<lparr>data = [], offsetS = 20\<rparr>, \<lparr>data = [], offsetS = 40\<rparr>]
     \<lparr>accumulatedTexts = [], allSegments = [], posted = []\<rparr> 0) =
     [\<lparr>seg_text = ''hi'', seg_start = 1, seg_end = 2\<rparr>,
      \<lparr>seg_text = ''hi'', seg_start = 41, seg_end = 42\<rparr>] \<and>
   progress_counts (posted (windows_for
     (\<lambda>i d. if i = 1 then Inl ''no tokens''
            else Inr \<lparr>o_text = Some ''hi'',
                      o_chunks = Some [\<lparr>c_text = Some ''hi'', c_timestamp = Some (Some 1, Some 2)\<rparr>]\<rparr>)
     7 [\<lparr>data = [], offsetS = 0\<rparr>, \<lparr>data = [], offsetS = 20\<rparr>, \<lparr>data = [], offsetS = 40\<rparr>]
     \<lparr>accumulatedTexts = [], allSegments = [], posted = []\<rparr> 0)) =
     [(Some 1, Some 3), (Some 2, Some 3), (Some 3, Some 3)]"
proof -
  let ?tr = "\<lambda>(i::nat) (d::real list). if i = 1 then Inl ''no tokens''
            else Inr \<lparr>o_text = Some ''hi'',
                      o_chunks = Some [\<lparr>c_text = Some ''hi'', c_timestamp = Some (Some 1, Some 2)\<rparr>]\<rparr>"
  let ?ws = "[\<lparr>data = [], offsetS = 0\<rparr>, \<lparr>data = [], offsetS = 20\<rparr>, \<lparr>data = [], offsetS = 40\<rparr>]"
  let ?st = "\<lparr>accumulatedTexts = [''hi''], allSegments = [], posted = []\<rparr>"
  have h1: "1 < length ?ws" by simp
  have h2: "?tr 1 (data (?ws ! 1)) = Inl ''no tokens''" by simp
  note c = C3_failed_window_skipped[of 1 ?ws ?tr "''no tokens''" 7 ?st None "[]", OF h1 h2]
  from c have p: "process_window ?tr 7 (length ?ws) ?st 1 (?ws ! 1) =
      ?st\<lparr>posted := posted ?st @ [progress_event 7 (1 + 1) (length ?ws)]\<rparr>"
    by (rule conjunct1)
  have p': "process_window ?tr 7 3 ?st 1 \<lparr>data = [], offsetS = 20\<rparr> =
     \<lparr>accumulatedTexts = [''hi''], allSegments = [], posted = [progress_event 7 2 3]\<rparr>"
    using p by (simp add: numeral_3_eq_3 numeral_2_eq_2)
  from c have a: "allSegments (windows_for ?tr 7 ?ws
        \<lparr>accumulatedTexts = [], allSegments = [], posted = []\<rparr> 0) =
      concat (map (window_segments ?tr ?ws) [0..<length ?ws])"
    by (elim conjE)
  have a': "concat (map (window_segments ?tr ?ws) [0..<length ?ws]) =
     [\<lparr>seg_text = ''hi'', seg_start = 1, seg_end = 2\<rparr>,
      \<lparr>seg_text = ''hi'', seg_start = 41, seg_end = 42\<rparr>]"
    by code_simp
  from c have g: "progress_counts (posted (windows_for ?tr 7 ?ws
        \<lparr>accumulatedTexts = [], allSegments = [], posted = []\<rparr> 0)) =
      map (\<lambda>j. (Some (j + 1), Some (length ?ws))) [0..<length ?ws]"
    by (elim conjE)
  have g': "map (\<lambda>j. (Some (j + 1), Some (length ?ws))) [0..<length ?ws] =
     [(Some 1, Some 3), (Some 2, Some 3), (Some 3, Some 3)]"
    by code_simp
  show ?thesis
    using h1 h2 p' a[unfolded a'] g[unfolded g'] by (intro conjI) assumption+
qed

section \<open>Stale messages on the main thread\<close>

lemma handle_stale:
  "tagged r m \<Longrightarrow> r \<noteq> activeRequestId st \<Longrightarrow> handleWorkerMessage now m st = st"
  by (cases m) (simp_all add: on_status_def on_progress_def stale_def)

lemma handle_002_stale:
  "tagged r m \<Longrightarrow> r \<noteq> activeRequestId st \<Longrightarrow> handleWorkerMessage_002 now m st = st"
  by (cases m) (simp_all add: on_status_002_def on_progress_002_def stale_def)

lemma set_device_active [simp]: "activeRequestId (set_device d st) = activeRequestId st"
  by (simp add: set_device_def)

lemma set_opt_active:
  "(\<And>v x. activeRequestId (upd v x) = activeRequestId x) \<Longrightarrow>
   activeRequestId (set_opt v upd st) = activeRequestId st"
  by (cases v) (simp_all add: set_opt_def)

lemma clear_active [simp]: "activeRequestId (clearProgressState st) = activeRequestId st"
  by (simp add: clearProgressState_def)

lemma finish_active [simp]: "activeRequestId (finish_fields st) = activeRequestId st"
  by (simp add: finish_fields_def)

lemma on_status_active: "activeRequestId (on_status m st) = activeRequestId st"
  by (cases "s_status m") (simp_all add: on_status_def Let_def)

lemma on_progress_active: "activeRequestId (on_progress now m st) = activeRequestId st"
  by (simp add: on_progress_def Let_def set_opt_active split: option.splits)

lemma handle_active: "activeRequestId (handleWorkerMessage now m st) = activeRequestId st"
  by (cases m) (simp_all add: on_status_active on_progress_active)

lemma cancel_active: "activeRequestId (cancelTranscription st) = activeRequestId st + 1"
  by (simp add: cancelTranscription_def Let_def)

lemma start_active: "activeRequestId st \<le> activeRequestId (startTranscription f st)"
  by (simp add: startTranscription_def Let_def cancel_active)

lemma ui_step_active: "activeRequestId st \<le> activeRequestId (ui_step st e)"
  by (cases e) (simp_all add: cancel_active handle_active handleFileSelected_def start_active)

lemma ui_run_active: "activeRequestId st \<le> activeRequestId (ui_run st evs)"
  unfolding ui_run_def
proof (induction evs arbitrary: st)
  case Nil
  then show ?case by simp
next
  case (Cons e evs)
  have "activeRequestId st \<le> activeRequestId (ui_step st e)" by (rule ui_step_active)
  also have "\<dots> \<le> activeRequestId (foldl ui_step (ui_step st e) evs)" by (rule Cons.IH)
  finally show ?case by simp
qed

lemma cancelled_forever:
  "activeRequestId st0 \<noteq> activeRequestId (ui_run (cancelTranscription st0) evs)"
  using ui_run_active[of "cancelTranscription st0" evs] by (simp add: cancel_active)

text \<open>
  Claim C4.  A \<open>partial\<close>, \<open>segments\<close> or \<open>result\<close> message whose request id is not the
  active one leaves the whole state of the main thread unchanged, in the handler of
  src/app/page.tsx and in the earlier one.  Once the request that was active in \<open>st0\<close> has
  been cancelled, no message carrying its id changes the state again, whatever happens
  in between (files selected, further cancellations, other messages); and every message the
  \<open>transcribe\<close> branch of the worker posts for a request carries the id of that request.
\<close>

theorem C4_stale_events_dropped:
  "(requestId \<noteq> activeRequestId st \<longrightarrow>
      handleWorkerMessage now (Partial txt requestId) st = st \<and>
      handleWorkerMessage now (Segments requestId txt segs) st = st \<and>
      handleWorkerMessage now (Result txt requestId) st = st \<and>
      handleWorkerMessage_002 now (Partial txt requestId) st = st \<and>
      handleWorkerMessage_002 now (Segments requestId txt segs) st = st \<and>
      handleWorkerMessage_002 now (Result txt requestId) st = st) \<and>
   (tagged (activeRequestId st0) m \<longrightarrow>
      handleWorkerMessage now m (ui_run (cancelTranscription st0) evs) =
        ui_run (cancelTranscription st0) evs) \<and>
   list_all (tagged r) (transcribe_handler got r audio)"
  using handle_stale[OF _ cancelled_forever, of st0 m now evs]
  by (simp add: transcribe_handler_tagged)

text \<open>Request 3 is cancelled and a new file is selected; the late messages of request 3.\<close>

theorem C4_witness:
  "(let st0 =
      \<lparr>activeRequestId = 3, transcribeStartedAt = Some 1000, workerRef = True,
       abortControllerRef = False, status = Transcribing, progress = 50,
       progressPhase = Some TranscribingPhase, processedChunks = Some 1, totalChunks = Some 2,
       etaSeconds = Some 9, output_text = ''first part'', segments = [], error = None,
       activeFileName = Some ''a.wav'', selectedLanguage = Some ''english'',
       copyState = CopyIdle, copyFeedback = None, isCancelling = False,
       isExportMenuOpen = False, downloadedBytes = None, totalBytes = None, viewMode = Plain,
       loadingDetail = None, activeDevice = Some ''wasm'', currentSlice = Some 1,
       totalSlices = Some 1, isMobile = False, isViaCloud = False, wasModelEverLoaded = True,
       modelCached = True, workerSupported = True\<rparr>;
     st = ui_run (cancelTranscription st0) [FileSelected ''b.wav'']
   in (3 \<noteq> activeRequestId st \<and> tagged (activeRequestId st0) (Partial ''stale text'' 3)) \<and>
      handleWorkerMessage 2000 (Partial ''stale text'' 3) st = st \<and>
      handleWorkerMessage 2000 (Result ''stale text'' 3) st = st \<and>
      activeRequestId st = 5 \<and> output_text st = [] \<and> status st = Decoding)"
proof -
  let ?init = "\<lparr>activeRequestId = 3, transcribeStartedAt = Some 1000, workerRef = True,
       abortControllerRef = False, status = Transcribing, progress = 50,
       progressPhase = Some TranscribingPhase, processedChunks = Some 1, totalChunks = Some 2,
       etaSeconds = Some 9, output_text = ''first part'', segments = [], error = None,
       activeFileName = Some ''a.wav'', selectedLanguage = Some ''english'',
       copyState = CopyIdle, copyFeedback = None, isCancelling = False,
       isExportMenuOpen = False, downloadedBytes = None, totalBytes = None, viewMode = Plain,
       loadingDetail = None, activeDevice = Some ''wasm'', currentSlice = Some 1,
       totalSlices = Some 1, isMobile = False, isViaCloud = False, wasModelEverLoaded = True,
       modelCached = True, workerSupported = True\<rparr>"
  let ?after = "ui_run (cancelTranscription ?init) [FileSelected ''b.wav'']"
  have v: "activeRequestId ?after = 5 \<and> output_text ?after = [] \<and> status ?after = Decoding"
    by (simp add: ui_run_def handleFileSelected_def startTranscription_def
          cancelTranscription_def clearProgressState_def Let_def)
  from v have a5: "activeRequestId ?after = 5" by (rule conjunct1)
  have h1: "3 \<noteq> activeRequestId ?after" unfolding a5 by simp
  have h2: "tagged (activeRequestId ?init) (Partial ''stale text'' 3)" by simp
  note c = C4_stale_events_dropped[of 3 ?after 2000 "''stale text''" "[]" ?init
      "Partial ''stale text'' 3" "[FileSelected ''b.wav'']" 0 "Inl []" "[]"]
  from c h2 have e1: "handleWorkerMessage 2000 (Partial ''stale text'' 3) ?after = ?after"
    by blast
  from c h1 have e2: "handleWorkerMessage 2000 (Result ''stale text'' 3) ?after = ?after"
    by blast
  show ?thesis
    unfolding Let_def using h1 h2 e1 e2 v by (intro conjI) (elim conjE | assumption)+
qed

end
